theory Spec2Isabelle
  imports Main "HOL-Library.Word"
begin

section \<open>Garbage collector of the Cosmos+ OpenSSD flash translation layer\<close>

text \<open>
  The repository holds three variants of the garbage collector, one per victim
  selection policy: \<^verbatim>\<open>garbage_collection_greedy.c\<close>,
  \<^verbatim>\<open>garbage_collection_cost_benefit.c\<close> and
  \<^verbatim>\<open>garbage_collection_CAT_reverse.c\<close>. They share the victim index (one
  doubly linked list of blocks per die and invalid-slice count) and differ in how
  \<^verbatim>\<open>GetFromGcVictimList\<close> picks a block. Functions that exist in several files
  carry the policy as a suffix (\<open>_greedy\<close>, \<open>_cb\<close>, \<open>_cat\<close>); a function whose
  text is the same in all files is modelled once.
\<close>

subsection \<open>Machine types\<close>

text \<open>
  \<^verbatim>\<open>unsigned int\<close> and \<^verbatim>\<open>uint32_t\<close> are 32-bit words, \<^verbatim>\<open>uint64_t\<close> is a 64-bit
  word. Block numbers are 16-bit words: \<^verbatim>\<open>GC_VICTIM_LIST_ENTRY\<close> keeps them in
  16-bit bit-fields, and the \<^verbatim>\<open>unsigned int\<close> variables that carry a block number
  in the C code hold values of that range.
\<close>

type_synonym u32 = "32 word"
type_synonym u64 = "64 word"
type_synonym blockno = "16 word"

subsection \<open>Data structures\<close>

text \<open>\<^verbatim>\<open>GC_VICTIM_LIST_ENTRY\<close> of \<^verbatim>\<open>garbage_collection.h\<close>.\<close>

record GC_VICTIM_LIST_ENTRY =
  headBlock :: blockno
  tailBlock :: blockno

text \<open>
  Modelled from the spec: the declaration of the virtual block entry
  (\<^verbatim>\<open>virtualBlockMapPtr->block[die][block]\<close>) is not among the sources. The record
  has the four fields the collector reads and writes, the ones section 3 of the
  specification lists for a block.
\<close>

record VIRTUAL_BLOCK_ENTRY =
  invalidSliceCnt :: u32
  eraseCnt :: u32
  prevBlock :: blockno
  nextBlock :: blockno

text \<open>
  The request descriptor the collector fills in before it hands a request to the
  low-level scheduler. The values are the ones the collector writes; \<open>_OTHER\<close>
  stands for every other value a pool entry may hold.
\<close>

datatype req_type = REQ_TYPE_NAND | REQ_TYPE_OTHER
datatype req_code = REQ_CODE_READ | REQ_CODE_WRITE | REQ_CODE_OTHER
datatype data_buf_format = REQ_OPT_DATA_BUF_TEMP_ENTRY | REQ_OPT_DATA_BUF_OTHER
datatype nand_addr = REQ_OPT_NAND_ADDR_VSA | REQ_OPT_NAND_ADDR_OTHER
datatype nand_ecc = REQ_OPT_NAND_ECC_ON | REQ_OPT_NAND_ECC_OFF
datatype nand_ecc_warning = REQ_OPT_NAND_ECC_WARNING_ON | REQ_OPT_NAND_ECC_WARNING_OFF
datatype row_addr_dependency = REQ_OPT_ROW_ADDR_DEPENDENCY_CHECK | REQ_OPT_ROW_ADDR_DEPENDENCY_NONE
datatype block_space = REQ_OPT_BLOCK_SPACE_MAIN | REQ_OPT_BLOCK_SPACE_OTHER

record SSD_REQ_FORMAT =
  reqType :: req_type
  reqCode :: req_code
  logicalSliceAddr :: u32
  dataBufFormat :: data_buf_format
  nandAddr :: nand_addr
  nandEcc :: nand_ecc
  nandEccWarning :: nand_ecc_warning
  rowAddrDependencyCheck :: row_addr_dependency
  blockSpace :: block_space
  dataBufInfo_entry :: u32
  nandInfo_virtualSliceAddr :: u32

text \<open>
  The collector calls into the request pool, the buffer allocator, the free-slice
  allocator and the block eraser. None of them is part of the sources. Each call is
  recorded, with its arguments and its result, in a trace; the two stores into the
  mapping tables are recorded as well, so that their place between the calls can be
  stated.
\<close>

datatype event =
    Ev_GetFromFreeReqQ u32
  | Ev_AllocateTempDataBuf u32 u32
  | Ev_UpdateTempDataBufEntryInfoBlockingReq u32 u32
  | Ev_SelectLowLevelReqQ u32 SSD_REQ_FORMAT
  | Ev_FindFreeVirtualSliceForGc u32 blockno u32
  | Ev_store_logicalSlice u32 u32
  | Ev_store_virtualSlice u32 u32
  | Ev_EraseBlock u32 blockno

text \<open>
  The constants of \<^verbatim>\<open>ftl_config.h\<close> and \<^verbatim>\<open>memory_map.h\<close> and the external
  functions are parameters of the model. An external function answers from the
  trace so far: its result may depend on everything that happened before the call.
\<close>

record ftl_config =
  SLICES_PER_BLOCK :: u32
  USER_PAGES_PER_BLOCK :: u32
  BLOCK_NONE :: blockno
  BLOCK_FAIL :: blockno
  LSA_NONE :: u32
  Vorg2VsaTranslation :: "u32 \<Rightarrow> blockno \<Rightarrow> u32 \<Rightarrow> u32"
  ext_GetFromFreeReqQ :: "event list \<Rightarrow> u32"
  ext_AllocateTempDataBuf :: "event list \<Rightarrow> u32 \<Rightarrow> u32"
  ext_FindFreeVirtualSliceForGc :: "event list \<Rightarrow> u32 \<Rightarrow> blockno \<Rightarrow> u32"

text \<open>
  The global state: the virtual block map, the victim map, the activity clock and
  the two age tables (\<^verbatim>\<open>gcLastEraseTick\<close> of the Cost-Benefit file,
  \<^verbatim>\<open>gcLastInvalidTick\<close> of the CAT file), the two slice maps, the request pool
  and the trace. Arrays are total functions of their index.
\<close>

record ftl_state =
  block :: "u32 \<Rightarrow> blockno \<Rightarrow> VIRTUAL_BLOCK_ENTRY"
  gcVictimList :: "u32 \<Rightarrow> u32 \<Rightarrow> GC_VICTIM_LIST_ENTRY"
  gcActivityTick :: u32
  gcLastEraseTick :: "u32 \<Rightarrow> blockno \<Rightarrow> u32"
  gcLastInvalidTick :: "u32 \<Rightarrow> blockno \<Rightarrow> u32"
  virtualSlice :: "u32 \<Rightarrow> u32"
  logicalSlice :: "u32 \<Rightarrow> u32"
  reqPool :: "u32 \<Rightarrow> SSD_REQ_FORMAT"
  events :: "event list"

datatype gc_error = AssertionFailure

subsection \<open>Assignments to the shared arrays\<close>

definition set_prevBlock :: "ftl_state \<Rightarrow> u32 \<Rightarrow> blockno \<Rightarrow> blockno \<Rightarrow> ftl_state" where
  "set_prevBlock s dieNo blockNo v =
     s\<lparr>block := (block s)(dieNo := (block s dieNo)(blockNo := (block s dieNo blockNo)\<lparr>prevBlock := v\<rparr>))\<rparr>"

definition set_nextBlock :: "ftl_state \<Rightarrow> u32 \<Rightarrow> blockno \<Rightarrow> blockno \<Rightarrow> ftl_state" where
  "set_nextBlock s dieNo blockNo v =
     s\<lparr>block := (block s)(dieNo := (block s dieNo)(blockNo := (block s dieNo blockNo)\<lparr>nextBlock := v\<rparr>))\<rparr>"

definition set_headBlock :: "ftl_state \<Rightarrow> u32 \<Rightarrow> u32 \<Rightarrow> blockno \<Rightarrow> ftl_state" where
  "set_headBlock s dieNo cnt v =
     s\<lparr>gcVictimList := (gcVictimList s)(dieNo := (gcVictimList s dieNo)(cnt := (gcVictimList s dieNo cnt)\<lparr>headBlock := v\<rparr>))\<rparr>"

definition set_tailBlock :: "ftl_state \<Rightarrow> u32 \<Rightarrow> u32 \<Rightarrow> blockno \<Rightarrow> ftl_state" where
  "set_tailBlock s dieNo cnt v =
     s\<lparr>gcVictimList := (gcVictimList s)(dieNo := (gcVictimList s dieNo)(cnt := (gcVictimList s dieNo cnt)\<lparr>tailBlock := v\<rparr>))\<rparr>"

subsection \<open>The victim index\<close>

text \<open>
  \<^verbatim>\<open>PutToGcVictimList\<close> of the Greedy file: append the block at the tail of the
  list of its invalid-slice count. The statements are kept in the order of the source;
  each reads the state its predecessors left.
\<close>

definition PutToGcVictimList_greedy ::
  "ftl_config \<Rightarrow> ftl_state \<Rightarrow> u32 \<Rightarrow> blockno \<Rightarrow> u32 \<Rightarrow> ftl_state" where
  "PutToGcVictimList_greedy cfg s dieNo blockNo cnt =
     (if tailBlock (gcVictimList s dieNo cnt) \<noteq> BLOCK_NONE cfg then
        let s1 = set_prevBlock s dieNo blockNo (tailBlock (gcVictimList s dieNo cnt));
            s2 = set_nextBlock s1 dieNo blockNo (BLOCK_NONE cfg);
            s3 = set_nextBlock s2 dieNo (tailBlock (gcVictimList s2 dieNo cnt)) blockNo
        in set_tailBlock s3 dieNo cnt blockNo
      else
        let s1 = set_prevBlock s dieNo blockNo (BLOCK_NONE cfg);
            s2 = set_nextBlock s1 dieNo blockNo (BLOCK_NONE cfg);
            s3 = set_headBlock s2 dieNo cnt blockNo
        in set_tailBlock s3 dieNo cnt blockNo)"

text \<open>
  The Cost-Benefit file advances the activity clock when the count is not zero and
  then links the block as the Greedy file does.
\<close>

definition PutToGcVictimList_cb ::
  "ftl_config \<Rightarrow> ftl_state \<Rightarrow> u32 \<Rightarrow> blockno \<Rightarrow> u32 \<Rightarrow> ftl_state" where
  "PutToGcVictimList_cb cfg s dieNo blockNo cnt =
     (let s1 = (if cnt \<noteq> 0 then s\<lparr>gcActivityTick := gcActivityTick s + 1\<rparr> else s)
      in PutToGcVictimList_greedy cfg s1 dieNo blockNo cnt)"

text \<open>The CAT file also stamps the block with the new tick.\<close>

definition PutToGcVictimList_cat ::
  "ftl_config \<Rightarrow> ftl_state \<Rightarrow> u32 \<Rightarrow> blockno \<Rightarrow> u32 \<Rightarrow> ftl_state" where
  "PutToGcVictimList_cat cfg s dieNo blockNo cnt =
     (let s1 = (if cnt \<noteq> 0 then
                  let t = s\<lparr>gcActivityTick := gcActivityTick s + 1\<rparr>
                  in t\<lparr>gcLastInvalidTick := (gcLastInvalidTick t)
                         (dieNo := (gcLastInvalidTick t dieNo)(blockNo := gcActivityTick t))\<rparr>
                else s)
      in PutToGcVictimList_greedy cfg s1 dieNo blockNo cnt)"

text \<open>
  \<^verbatim>\<open>SelectiveGetFromGcVictimList\<close>, the same text in the three files: unlink a
  block from the list of its current invalid-slice count. The block's own links are
  not written.
\<close>

definition SelectiveGetFromGcVictimList ::
  "ftl_config \<Rightarrow> ftl_state \<Rightarrow> u32 \<Rightarrow> blockno \<Rightarrow> ftl_state" where
  "SelectiveGetFromGcVictimList cfg s dieNo blockNo =
     (let nextB = nextBlock (block s dieNo blockNo);
          prevB = prevBlock (block s dieNo blockNo);
          cnt = invalidSliceCnt (block s dieNo blockNo)
      in if nextB \<noteq> BLOCK_NONE cfg \<and> prevB \<noteq> BLOCK_NONE cfg then
           set_prevBlock (set_nextBlock s dieNo prevB nextB) dieNo nextB prevB
         else if nextB = BLOCK_NONE cfg \<and> prevB \<noteq> BLOCK_NONE cfg then
           set_tailBlock (set_nextBlock s dieNo prevB (BLOCK_NONE cfg)) dieNo cnt prevB
         else if nextB \<noteq> BLOCK_NONE cfg \<and> prevB = BLOCK_NONE cfg then
           set_headBlock (set_prevBlock s dieNo nextB (BLOCK_NONE cfg)) dieNo cnt nextB
         else
           set_tailBlock (set_headBlock s dieNo cnt (BLOCK_NONE cfg)) dieNo cnt (BLOCK_NONE cfg))"

text \<open>
  \<^verbatim>\<open>DetachBlockFromGcList\<close>, the static helper of the Cost-Benefit and CAT files:
  unlink, then clear the block's own links.
\<close>

definition DetachBlockFromGcList ::
  "ftl_config \<Rightarrow> ftl_state \<Rightarrow> u32 \<Rightarrow> blockno \<Rightarrow> ftl_state" where
  "DetachBlockFromGcList cfg s dieNo blockNo =
     (let s1 = SelectiveGetFromGcVictimList cfg s dieNo blockNo;
          s2 = set_nextBlock s1 dieNo blockNo (BLOCK_NONE cfg)
      in set_prevBlock s2 dieNo blockNo (BLOCK_NONE cfg))"

subsection \<open>Greedy selection\<close>

text \<open>
  \<^verbatim>\<open>GetFromGcVictimList\<close> of the Greedy file. The \<^verbatim>\<open>for\<close> loop runs the count
  from \<^verbatim>\<open>SLICES_PER_BLOCK\<close> down to 1; the recursion is on that count. Falling out
  of the loop reaches the assertion, which halts the firmware.
\<close>

fun GetFromGcVictimList_greedy_loop ::
  "ftl_config \<Rightarrow> ftl_state \<Rightarrow> u32 \<Rightarrow> nat \<Rightarrow> gc_error + (blockno \<times> ftl_state)" where
  "GetFromGcVictimList_greedy_loop cfg s dieNo 0 = Inl AssertionFailure"
| "GetFromGcVictimList_greedy_loop cfg s dieNo (Suc n) =
     (let cnt = (of_nat (Suc n) :: u32) in
      if headBlock (gcVictimList s dieNo cnt) \<noteq> BLOCK_NONE cfg then
        let evictedBlockNo = headBlock (gcVictimList s dieNo cnt) in
        if nextBlock (block s dieNo evictedBlockNo) \<noteq> BLOCK_NONE cfg then
          let s1 = set_prevBlock s dieNo (nextBlock (block s dieNo evictedBlockNo)) (BLOCK_NONE cfg);
              s2 = set_headBlock s1 dieNo cnt (nextBlock (block s1 dieNo evictedBlockNo))
          in Inr (evictedBlockNo, s2)
        else
          let s1 = set_headBlock s dieNo cnt (BLOCK_NONE cfg);
              s2 = set_tailBlock s1 dieNo cnt (BLOCK_NONE cfg)
          in Inr (evictedBlockNo, s2)
      else GetFromGcVictimList_greedy_loop cfg s dieNo n)"

definition GetFromGcVictimList_greedy ::
  "ftl_config \<Rightarrow> ftl_state \<Rightarrow> u32 \<Rightarrow> gc_error + (blockno \<times> ftl_state)" where
  "GetFromGcVictimList_greedy cfg s dieNo =
     GetFromGcVictimList_greedy_loop cfg s dieNo (unat (SLICES_PER_BLOCK cfg))"

subsection \<open>Scores\<close>

text \<open>
  \<^verbatim>\<open>CalculateCostBenefitScore\<close>. The subtraction and the two \<open>+ 1\<close> are 32-bit and
  wrap; the product is 64-bit; the result is narrowed to 32 bits. The division is
  reached only with a divisor and a dividend that are not zero.
\<close>

definition CalculateCostBenefitScore ::
  "ftl_config \<Rightarrow> ftl_state \<Rightarrow> u32 \<Rightarrow> blockno \<Rightarrow> u32" where
  "CalculateCostBenefitScore cfg s dieNo blockNo =
     (let invalidSlices = invalidSliceCnt (block s dieNo blockNo);
          validSlices = USER_PAGES_PER_BLOCK cfg - invalidSlices;
          ageTicks = gcActivityTick s - gcLastEraseTick s dieNo blockNo;
          benefit = (ucast invalidSlices :: u64) * (ucast (ageTicks + 1) :: u64)
                      * (ucast (USER_PAGES_PER_BLOCK cfg) :: u64);
          cost = (ucast (validSlices + 1) :: u64)
      in if cost = 0 \<or> benefit = 0 then (ucast benefit :: u32)
         else (ucast (benefit div cost) :: u32))"

text \<open>\<^verbatim>\<open>CalculateCatScore\<close>, with the same widths.\<close>

definition CalculateCatScore ::
  "ftl_config \<Rightarrow> ftl_state \<Rightarrow> u32 \<Rightarrow> blockno \<Rightarrow> u32" where
  "CalculateCatScore cfg s dieNo blockNo =
     (let invalidSlices = invalidSliceCnt (block s dieNo blockNo);
          validSlices = USER_PAGES_PER_BLOCK cfg - invalidSlices;
          ageTicks = gcActivityTick s - gcLastInvalidTick s dieNo blockNo;
          wearCount = eraseCnt (block s dieNo blockNo);
          numerator = (ucast (invalidSlices + 1) :: u64) * (ucast (ageTicks + 1) :: u64);
          denominator = (ucast (validSlices + 1) :: u64) * (ucast (wearCount + 1) :: u64)
      in if denominator = 0 then (ucast numerator :: u32)
         else (ucast (numerator div denominator) :: u32))"

subsection \<open>Selection by score\<close>

text \<open>
  \<^verbatim>\<open>GetFromGcVictimList\<close> of the Cost-Benefit and CAT files: the two texts differ
  only in the score function they call, which is a parameter here. The inner
  \<^verbatim>\<open>while\<close> loop follows the \<^verbatim>\<open>nextBlock\<close> links until it meets
  \<^verbatim>\<open>BLOCK_NONE\<close>; on a list that never reaches it the loop does not return, and
  the model yields \<open>None\<close>. The pair carried through the loops is
  \<^verbatim>\<open>(bestBlock, bestScore)\<close>.
\<close>

partial_function (option) scan_list ::
  "ftl_config \<Rightarrow> (blockno \<Rightarrow> u32) \<Rightarrow> ftl_state \<Rightarrow> u32 \<Rightarrow> blockno \<Rightarrow> blockno \<times> u32
     \<Rightarrow> (blockno \<times> u32) option" where
  "scan_list cfg score s dieNo blockNo best =
     (if blockNo \<noteq> BLOCK_NONE cfg then
        let nextB = nextBlock (block s dieNo blockNo);
            sc = score blockNo;
            best' = (if sc > snd best then (blockNo, sc) else best)
        in scan_list cfg score s dieNo nextB best'
      else Some best)"

fun scan_buckets ::
  "ftl_config \<Rightarrow> (blockno \<Rightarrow> u32) \<Rightarrow> ftl_state \<Rightarrow> u32 \<Rightarrow> nat \<Rightarrow> blockno \<times> u32
     \<Rightarrow> (blockno \<times> u32) option" where
  "scan_buckets cfg score s dieNo 0 best = Some best"
| "scan_buckets cfg score s dieNo (Suc n) best =
     (case scan_list cfg score s dieNo
             (headBlock (gcVictimList s dieNo (of_nat (Suc n)))) best of
        None \<Rightarrow> None
      | Some best' \<Rightarrow> scan_buckets cfg score s dieNo n best')"

definition GetFromGcVictimList_scored ::
  "ftl_config \<Rightarrow> (blockno \<Rightarrow> u32) \<Rightarrow> ftl_state \<Rightarrow> u32
     \<Rightarrow> (gc_error + (blockno \<times> ftl_state)) option" where
  "GetFromGcVictimList_scored cfg score s dieNo =
     (case scan_buckets cfg score s dieNo (unat (SLICES_PER_BLOCK cfg)) (BLOCK_FAIL cfg, 0) of
        None \<Rightarrow> None
      | Some (bestBlock, bestScore) \<Rightarrow>
          Some (if bestBlock \<noteq> BLOCK_FAIL cfg
                then Inr (bestBlock, DetachBlockFromGcList cfg s dieNo bestBlock)
                else Inl AssertionFailure))"

definition GetFromGcVictimList_cb ::
  "ftl_config \<Rightarrow> ftl_state \<Rightarrow> u32 \<Rightarrow> (gc_error + (blockno \<times> ftl_state)) option" where
  "GetFromGcVictimList_cb cfg s dieNo =
     GetFromGcVictimList_scored cfg (CalculateCostBenefitScore cfg s dieNo) s dieNo"

definition GetFromGcVictimList_cat ::
  "ftl_config \<Rightarrow> ftl_state \<Rightarrow> u32 \<Rightarrow> (gc_error + (blockno \<times> ftl_state)) option" where
  "GetFromGcVictimList_cat cfg s dieNo =
     GetFromGcVictimList_scored cfg (CalculateCatScore cfg s dieNo) s dieNo"

subsection \<open>Migration\<close>

text \<open>The external calls: each appends its record to the trace.\<close>

definition call_GetFromFreeReqQ :: "ftl_config \<Rightarrow> ftl_state \<Rightarrow> u32 \<times> ftl_state" where
  "call_GetFromFreeReqQ cfg s =
     (let tag = ext_GetFromFreeReqQ cfg (events s)
      in (tag, s\<lparr>events := events s @ [Ev_GetFromFreeReqQ tag]\<rparr>))"

definition call_AllocateTempDataBuf :: "ftl_config \<Rightarrow> ftl_state \<Rightarrow> u32 \<Rightarrow> u32 \<times> ftl_state" where
  "call_AllocateTempDataBuf cfg s dieNo =
     (let entry = ext_AllocateTempDataBuf cfg (events s) dieNo
      in (entry, s\<lparr>events := events s @ [Ev_AllocateTempDataBuf dieNo entry]\<rparr>))"

definition call_UpdateTempDataBufEntryInfoBlockingReq ::
  "ftl_state \<Rightarrow> u32 \<Rightarrow> u32 \<Rightarrow> ftl_state" where
  "call_UpdateTempDataBufEntryInfoBlockingReq s entry tag =
     s\<lparr>events := events s @ [Ev_UpdateTempDataBufEntryInfoBlockingReq entry tag]\<rparr>"

definition call_SelectLowLevelReqQ :: "ftl_state \<Rightarrow> u32 \<Rightarrow> ftl_state" where
  "call_SelectLowLevelReqQ s tag =
     s\<lparr>events := events s @ [Ev_SelectLowLevelReqQ tag (reqPool s tag)]\<rparr>"

definition call_FindFreeVirtualSliceForGc ::
  "ftl_config \<Rightarrow> ftl_state \<Rightarrow> u32 \<Rightarrow> blockno \<Rightarrow> u32 \<times> ftl_state" where
  "call_FindFreeVirtualSliceForGc cfg s dieNo victimBlockNo =
     (let vsa = ext_FindFreeVirtualSliceForGc cfg (events s) dieNo victimBlockNo
      in (vsa, s\<lparr>events := events s @ [Ev_FindFreeVirtualSliceForGc dieNo victimBlockNo vsa]\<rparr>))"

definition call_EraseBlock :: "ftl_state \<Rightarrow> u32 \<Rightarrow> blockno \<Rightarrow> ftl_state" where
  "call_EraseBlock s dieNo blockNo = s\<lparr>events := events s @ [Ev_EraseBlock dieNo blockNo]\<rparr>"

definition store_logicalSlice :: "ftl_state \<Rightarrow> u32 \<Rightarrow> u32 \<Rightarrow> ftl_state" where
  "store_logicalSlice s lsa vsa =
     s\<lparr>logicalSlice := (logicalSlice s)(lsa := vsa),
       events := events s @ [Ev_store_logicalSlice lsa vsa]\<rparr>"

definition store_virtualSlice :: "ftl_state \<Rightarrow> u32 \<Rightarrow> u32 \<Rightarrow> ftl_state" where
  "store_virtualSlice s vsa lsa =
     s\<lparr>virtualSlice := (virtualSlice s)(vsa := lsa),
       events := events s @ [Ev_store_virtualSlice vsa lsa]\<rparr>"

text \<open>
  The nine assignments that both the READ and the WRITE request start with: type,
  code, logical address and the six options of the pool entry \<^verbatim>\<open>reqSlotTag\<close>.
\<close>

definition fill_request :: "ftl_state \<Rightarrow> u32 \<Rightarrow> req_code \<Rightarrow> u32 \<Rightarrow> ftl_state" where
  "fill_request s tag code lsa =
     s\<lparr>reqPool := (reqPool s)(tag := (reqPool s tag)\<lparr>
          reqType := REQ_TYPE_NAND,
          reqCode := code,
          logicalSliceAddr := lsa,
          dataBufFormat := REQ_OPT_DATA_BUF_TEMP_ENTRY,
          nandAddr := REQ_OPT_NAND_ADDR_VSA,
          nandEcc := REQ_OPT_NAND_ECC_ON,
          nandEccWarning := REQ_OPT_NAND_ECC_WARNING_OFF,
          rowAddrDependencyCheck := REQ_OPT_ROW_ADDR_DEPENDENCY_CHECK,
          blockSpace := REQ_OPT_BLOCK_SPACE_MAIN\<rparr>)\<rparr>"

definition set_dataBufInfo_entry :: "ftl_state \<Rightarrow> u32 \<Rightarrow> u32 \<Rightarrow> ftl_state" where
  "set_dataBufInfo_entry s tag entry =
     s\<lparr>reqPool := (reqPool s)(tag := (reqPool s tag)\<lparr>dataBufInfo_entry := entry\<rparr>)\<rparr>"

definition set_nandInfo_virtualSliceAddr :: "ftl_state \<Rightarrow> u32 \<Rightarrow> u32 \<Rightarrow> ftl_state" where
  "set_nandInfo_virtualSliceAddr s tag vsa =
     s\<lparr>reqPool := (reqPool s)(tag := (reqPool s tag)\<lparr>nandInfo_virtualSliceAddr := vsa\<rparr>)\<rparr>"

text \<open>
  The READ half of the loop body: take a request slot, fill it, take a temporary
  buffer, bind it, set the source address and hand the request over.
\<close>

definition gc_submit_read :: "ftl_config \<Rightarrow> ftl_state \<Rightarrow> u32 \<Rightarrow> u32 \<Rightarrow> u32 \<Rightarrow> ftl_state" where
  "gc_submit_read cfg s dieNo virtualSliceAddr lsa =
     (let (reqSlotTag, s1) = call_GetFromFreeReqQ cfg s;
          s2 = fill_request s1 reqSlotTag REQ_CODE_READ lsa;
          (entry, s3) = call_AllocateTempDataBuf cfg s2 dieNo;
          s4 = set_dataBufInfo_entry s3 reqSlotTag entry;
          s5 = call_UpdateTempDataBufEntryInfoBlockingReq s4
                 (dataBufInfo_entry (reqPool s4 reqSlotTag)) reqSlotTag;
          s6 = set_nandInfo_virtualSliceAddr s5 reqSlotTag virtualSliceAddr
      in call_SelectLowLevelReqQ s6 reqSlotTag)"

text \<open>
  The WRITE half: the same start, then the destination slice from the allocator, the
  two stores into the mapping tables, and the hand-over of the request.
\<close>

definition gc_submit_write :: "ftl_config \<Rightarrow> ftl_state \<Rightarrow> u32 \<Rightarrow> blockno \<Rightarrow> u32 \<Rightarrow> ftl_state" where
  "gc_submit_write cfg s dieNoForGcCopy victimBlockNo lsa =
     (let (reqSlotTag, s1) = call_GetFromFreeReqQ cfg s;
          s2 = fill_request s1 reqSlotTag REQ_CODE_WRITE lsa;
          (entry, s3) = call_AllocateTempDataBuf cfg s2 dieNoForGcCopy;
          s4 = set_dataBufInfo_entry s3 reqSlotTag entry;
          s5 = call_UpdateTempDataBufEntryInfoBlockingReq s4
                 (dataBufInfo_entry (reqPool s4 reqSlotTag)) reqSlotTag;
          (vsa, s6) = call_FindFreeVirtualSliceForGc cfg s5 dieNoForGcCopy victimBlockNo;
          s7 = set_nandInfo_virtualSliceAddr s6 reqSlotTag vsa;
          s8 = store_logicalSlice s7 lsa (nandInfo_virtualSliceAddr (reqPool s7 reqSlotTag));
          s9 = store_virtualSlice s8 (nandInfo_virtualSliceAddr (reqPool s8 reqSlotTag)) lsa
      in call_SelectLowLevelReqQ s9 reqSlotTag)"

text \<open>The body of the page loop, with the two nested tests of the source.\<close>

definition gc_page :: "ftl_config \<Rightarrow> u32 \<Rightarrow> blockno \<Rightarrow> u32 \<Rightarrow> ftl_state \<Rightarrow> ftl_state" where
  "gc_page cfg dieNo victimBlockNo pageNo s =
     (let virtualSliceAddr = Vorg2VsaTranslation cfg dieNo victimBlockNo pageNo;
          lsa = virtualSlice s virtualSliceAddr
      in if lsa \<noteq> LSA_NONE cfg then
           if logicalSlice s lsa = virtualSliceAddr then
             gc_submit_write cfg (gc_submit_read cfg s dieNo virtualSliceAddr lsa)
               dieNo victimBlockNo lsa
           else s
         else s)"

text \<open>
  What \<^verbatim>\<open>GarbageCollection\<close> does once the victim is known, the same in the three
  files: the page loop unless every slice of the victim is invalid, then the erase.
\<close>

definition gc_pages :: "ftl_config \<Rightarrow> u32 list" where
  "gc_pages cfg = map of_nat [0 ..< unat (USER_PAGES_PER_BLOCK cfg)]"

definition gc_migrate :: "ftl_config \<Rightarrow> ftl_state \<Rightarrow> u32 \<Rightarrow> blockno \<Rightarrow> ftl_state" where
  "gc_migrate cfg s dieNo victimBlockNo =
     (let s1 = (if invalidSliceCnt (block s dieNo victimBlockNo) \<noteq> SLICES_PER_BLOCK cfg
                then fold (gc_page cfg dieNo victimBlockNo) (gc_pages cfg) s
                else s)
      in call_EraseBlock s1 dieNo victimBlockNo)"

definition GarbageCollection_greedy ::
  "ftl_config \<Rightarrow> ftl_state \<Rightarrow> u32 \<Rightarrow> gc_error + ftl_state" where
  "GarbageCollection_greedy cfg s dieNo =
     (case GetFromGcVictimList_greedy cfg s dieNo of
        Inl e \<Rightarrow> Inl e
      | Inr (victimBlockNo, s1) \<Rightarrow> Inr (gc_migrate cfg s1 dieNo victimBlockNo))"

definition GarbageCollection_cb ::
  "ftl_config \<Rightarrow> ftl_state \<Rightarrow> u32 \<Rightarrow> (gc_error + ftl_state) option" where
  "GarbageCollection_cb cfg s dieNo =
     (case GetFromGcVictimList_cb cfg s dieNo of
        None \<Rightarrow> None
      | Some (Inl e) \<Rightarrow> Some (Inl e)
      | Some (Inr (victimBlockNo, s1)) \<Rightarrow>
          (let s2 = gc_migrate cfg s1 dieNo victimBlockNo
           in Some (Inr (s2\<lparr>gcLastEraseTick := (gcLastEraseTick s2)
                 (dieNo := (gcLastEraseTick s2 dieNo)(victimBlockNo := gcActivityTick s2))\<rparr>))))"

definition GarbageCollection_cat ::
  "ftl_config \<Rightarrow> ftl_state \<Rightarrow> u32 \<Rightarrow> (gc_error + ftl_state) option" where
  "GarbageCollection_cat cfg s dieNo =
     (case GetFromGcVictimList_cat cfg s dieNo of
        None \<Rightarrow> None
      | Some (Inl e) \<Rightarrow> Some (Inl e)
      | Some (Inr (victimBlockNo, s1)) \<Rightarrow>
          (let s2 = gc_migrate cfg s1 dieNo victimBlockNo
           in Some (Inr (s2\<lparr>gcLastInvalidTick := (gcLastInvalidTick s2)
                 (dieNo := (gcLastInvalidTick s2 dieNo)(victimBlockNo := gcActivityTick s2))\<rparr>))))"

section \<open>Specification-level notions\<close>

subsection \<open>Well-formedness of the victim index\<close>

text \<open>
  A block number is a block when it is neither of the two sentinels.
\<close>

definition valid_block :: "ftl_config \<Rightarrow> blockno \<Rightarrow> bool" where
  "valid_block cfg b = (b \<noteq> BLOCK_NONE cfg \<and> b \<noteq> BLOCK_FAIL cfg)"

text \<open>
  \<open>dseg m p xs q\<close>: in the block map \<open>m\<close> the blocks \<open>xs\<close> are chained in this
  order by their \<^verbatim>\<open>nextBlock\<close> links, every block's \<^verbatim>\<open>prevBlock\<close> points back to
  its predecessor, the first block's \<^verbatim>\<open>prevBlock\<close> is \<open>p\<close> and the last block's
  \<^verbatim>\<open>nextBlock\<close> is \<open>q\<close>.
\<close>

definition first_or :: "blockno list \<Rightarrow> blockno \<Rightarrow> blockno" where
  "first_or xs q = (case xs of [] \<Rightarrow> q | x # _ \<Rightarrow> x)"

definition last_or :: "blockno \<Rightarrow> blockno list \<Rightarrow> blockno" where
  "last_or p xs = (if xs = [] then p else last xs)"

fun dseg :: "(blockno \<Rightarrow> VIRTUAL_BLOCK_ENTRY) \<Rightarrow> blockno \<Rightarrow> blockno list \<Rightarrow> blockno \<Rightarrow> bool" where
  "dseg m p [] q = True"
| "dseg m p (x # xs) q =
     (prevBlock (m x) = p \<and> nextBlock (m x) = first_or xs q \<and> dseg m x xs q)"

text \<open>
  \<open>bucket_ok cfg m e cnt xs\<close>: the list descriptor \<open>e\<close> of count \<open>cnt\<close> holds
  exactly the blocks \<open>xs\<close>, head first. Head and tail are the first and the last
  block (\<^verbatim>\<open>BLOCK_NONE\<close> for the empty list), the chain runs from
  \<^verbatim>\<open>BLOCK_NONE\<close> to \<^verbatim>\<open>BLOCK_NONE\<close>, no block occurs twice, and every member
  has \<open>cnt\<close> invalid slices.
\<close>

definition bucket_ok ::
  "ftl_config \<Rightarrow> (blockno \<Rightarrow> VIRTUAL_BLOCK_ENTRY) \<Rightarrow> GC_VICTIM_LIST_ENTRY \<Rightarrow> u32 \<Rightarrow> blockno list \<Rightarrow> bool" where
  "bucket_ok cfg m e cnt xs =
     (headBlock e = first_or xs (BLOCK_NONE cfg) \<and>
      tailBlock e = last_or (BLOCK_NONE cfg) xs \<and>
      dseg m (BLOCK_NONE cfg) xs (BLOCK_NONE cfg) \<and>
      distinct xs \<and>
      (\<forall>x \<in> set xs. valid_block cfg x \<and> invalidSliceCnt (m x) = cnt))"

text \<open>
  The victim index of a die is well formed for the bucket contents \<open>bl\<close> when every
  bucket \<open>0 .. SLICES_PER_BLOCK\<close> is as above and no block is in two buckets. The
  contents are an argument, so that the effect of an operation on them can be
  stated.
\<close>

definition bucket_counts :: "ftl_config \<Rightarrow> u32 list" where
  "bucket_counts cfg = map of_nat [0 ..< Suc (unat (SLICES_PER_BLOCK cfg))]"

definition index_wf :: "ftl_config \<Rightarrow> ftl_state \<Rightarrow> u32 \<Rightarrow> (u32 \<Rightarrow> blockno list) \<Rightarrow> bool" where
  "index_wf cfg s dieNo bl =
     ((\<forall>k \<in> set (bucket_counts cfg).
         bucket_ok cfg (block s dieNo) (gcVictimList s dieNo k) k (bl k)) \<and>
      (\<forall>j \<in> set (bucket_counts cfg). \<forall>k \<in> set (bucket_counts cfg).
         j \<noteq> k \<longrightarrow> set (bl j) \<inter> set (bl k) = {}))"

subsection \<open>The order of the scan\<close>

text \<open>
  The candidates in the order in which the Cost-Benefit and CAT selection visit
  them: bucket \<^verbatim>\<open>SLICES_PER_BLOCK\<close> first, bucket 1 last, each from head to tail.
  \<open>pick\<close> is one step of the comparison \<^verbatim>\<open>score > bestScore\<close>.
\<close>

definition pick :: "(blockno \<Rightarrow> u32) \<Rightarrow> blockno \<Rightarrow> blockno \<times> u32 \<Rightarrow> blockno \<times> u32" where
  "pick score x best = (if score x > snd best then (x, score x) else best)"

definition scan_order :: "ftl_config \<Rightarrow> (u32 \<Rightarrow> blockno list) \<Rightarrow> blockno list" where
  "scan_order cfg bl =
     concat (map (\<lambda>i. bl (of_nat i)) (rev [1 ..< Suc (unat (SLICES_PER_BLOCK cfg))]))"

subsection \<open>Concrete configurations and states\<close>

text \<open>
  A configuration with four slices and four pages per block, as in the scenarios of
  the specification, and the state of a freshly initialised device.
\<close>

definition cfg4 :: ftl_config where
  "cfg4 = \<lparr>SLICES_PER_BLOCK = 4, USER_PAGES_PER_BLOCK = 4, BLOCK_NONE = 0xFFFF,
     BLOCK_FAIL = 0xFFFF, LSA_NONE = 0xFFFFFFFF,
     Vorg2VsaTranslation = (\<lambda>dieNo blockNo pageNo. 4 * ucast blockNo + pageNo),
     ext_GetFromFreeReqQ = (\<lambda>tr. of_nat (length tr)),
     ext_AllocateTempDataBuf = (\<lambda>tr dieNo. of_nat (length tr)),
     ext_FindFreeVirtualSliceForGc = (\<lambda>tr dieNo victim. 1000 + of_nat (length tr))\<rparr>"

definition blank_entry :: VIRTUAL_BLOCK_ENTRY where
  "blank_entry = \<lparr>invalidSliceCnt = 0, eraseCnt = 0, prevBlock = 0xFFFF, nextBlock = 0xFFFF\<rparr>"

definition blank_req :: SSD_REQ_FORMAT where
  "blank_req = \<lparr>reqType = REQ_TYPE_OTHER, reqCode = REQ_CODE_OTHER, logicalSliceAddr = 0,
     dataBufFormat = REQ_OPT_DATA_BUF_OTHER, nandAddr = REQ_OPT_NAND_ADDR_OTHER,
     nandEcc = REQ_OPT_NAND_ECC_OFF, nandEccWarning = REQ_OPT_NAND_ECC_WARNING_ON,
     rowAddrDependencyCheck = REQ_OPT_ROW_ADDR_DEPENDENCY_NONE,
     blockSpace = REQ_OPT_BLOCK_SPACE_OTHER, dataBufInfo_entry = 0,
     nandInfo_virtualSliceAddr = 0\<rparr>"

definition boot_state :: ftl_state where
  "boot_state = \<lparr>block = (\<lambda>d b. blank_entry),
     gcVictimList = (\<lambda>d k. \<lparr>headBlock = 0xFFFF, tailBlock = 0xFFFF\<rparr>),
     gcActivityTick = 0, gcLastEraseTick = (\<lambda>d b. 0), gcLastInvalidTick = (\<lambda>d b. 0),
     virtualSlice = (\<lambda>v. 0xFFFFFFFF), logicalSlice = (\<lambda>l. 0xFFFFFFFF),
     reqPool = (\<lambda>t. blank_req), events = []\<rparr>"

text \<open>
  A die with blocks 1 and 2 in bucket 3 and block 3 in bucket 1; block 5 has two
  invalid slices and is in no list.
\<close>

definition ex_state :: ftl_state where
  "ex_state = boot_state\<lparr>
     block := (\<lambda>d. (\<lambda>b. blank_entry)
       (1 := \<lparr>invalidSliceCnt = 3, eraseCnt = 0, prevBlock = 0xFFFF, nextBlock = 2\<rparr>,
        2 := \<lparr>invalidSliceCnt = 3, eraseCnt = 0, prevBlock = 1, nextBlock = 0xFFFF\<rparr>,
        3 := \<lparr>invalidSliceCnt = 1, eraseCnt = 0, prevBlock = 0xFFFF, nextBlock = 0xFFFF\<rparr>,
        5 := \<lparr>invalidSliceCnt = 2, eraseCnt = 0, prevBlock = 0xFFFF, nextBlock = 0xFFFF\<rparr>)),
     gcVictimList := (\<lambda>d. (\<lambda>k. \<lparr>headBlock = 0xFFFF, tailBlock = 0xFFFF\<rparr>)
       (3 := \<lparr>headBlock = 1, tailBlock = 2\<rparr>, 1 := \<lparr>headBlock = 3, tailBlock = 3\<rparr>))\<rparr>"

definition ex_bl :: "u32 \<Rightarrow> blockno list" where
  "ex_bl = (\<lambda>k. [])(3 := [1, 2], 1 := [3])"

text \<open>
  A die whose only candidate is block 1 with one invalid slice, as
  \<^verbatim>\<open>PutToGcVictimList\<close> of the CAT file leaves it at tick 1.
\<close>

definition c1_state :: ftl_state where
  "c1_state = boot_state\<lparr>
     block := (\<lambda>d. (\<lambda>b. blank_entry)
       (1 := \<lparr>invalidSliceCnt = 1, eraseCnt = 0, prevBlock = 0xFFFF, nextBlock = 0xFFFF\<rparr>)),
     gcVictimList := (\<lambda>d. (\<lambda>k. \<lparr>headBlock = 0xFFFF, tailBlock = 0xFFFF\<rparr>)
       (1 := \<lparr>headBlock = 1, tailBlock = 1\<rparr>)),
     gcActivityTick := 1,
     gcLastInvalidTick := (\<lambda>d. (\<lambda>b. 0)(1 := 1))\<rparr>"

text \<open>A state whose activity clock has reached its largest value.\<close>

definition wrap_state :: ftl_state where
  "wrap_state = boot_state\<lparr>
     block := (\<lambda>d. (\<lambda>b. blank_entry)(1 := blank_entry\<lparr>invalidSliceCnt := 1\<rparr>)),
     gcActivityTick := 0xFFFFFFFF\<rparr>"

text \<open>
  The two score formulas as the specification words them, on natural numbers: \<open>I\<close>
  invalid slices, \<open>V\<close> valid slices, age \<open>A\<close>, \<open>P\<close> pages per block, wear \<open>W\<close>.
  The product is a 64-bit unsigned value and the quotient is narrowed to 32 bits.
  The Cost-Benefit formula returns 0 without dividing when the product is 0.
\<close>

definition cost_benefit_formula :: "nat \<Rightarrow> nat \<Rightarrow> nat \<Rightarrow> nat \<Rightarrow> nat" where
  "cost_benefit_formula I V A P =
     (let product = (I * (A + 1) * P) mod 2 ^ 64
      in if product = 0 then 0 else (product div (V + 1)) mod 2 ^ 32)"

definition cat_formula :: "nat \<Rightarrow> nat \<Rightarrow> nat \<Rightarrow> nat \<Rightarrow> nat" where
  "cat_formula I V A W =
     ((((I + 1) * (A + 1)) mod 2 ^ 64) div ((V + 1) * (W + 1))) mod 2 ^ 32"

text \<open>
  A die at the edges of the 32-bit range: the clock is at \<open>2^32 - 1\<close>; blocks 1
  and 2 are in bucket 2; block 1 was stamped at tick 0, so its age is
  \<open>2^32 - 1\<close>; block 2 was marked invalid at the present tick, so its CAT age is
  0, and its erase count is \<open>2^32 - 1\<close>.
\<close>

definition score_edge_state :: ftl_state where
  "score_edge_state = boot_state\<lparr>
     block := (\<lambda>d. (\<lambda>b. blank_entry)
       (1 := \<lparr>invalidSliceCnt = 2, eraseCnt = 1, prevBlock = 0xFFFF, nextBlock = 2\<rparr>,
        2 := \<lparr>invalidSliceCnt = 2, eraseCnt = 0xFFFFFFFF, prevBlock = 1, nextBlock = 0xFFFF\<rparr>)),
     gcVictimList := (\<lambda>d. (\<lambda>k. \<lparr>headBlock = 0xFFFF, tailBlock = 0xFFFF\<rparr>)
       (2 := \<lparr>headBlock = 1, tailBlock = 2\<rparr>)),
     gcActivityTick := 0xFFFFFFFF,
     gcLastInvalidTick := (\<lambda>d. (\<lambda>b. 0)(2 := 0xFFFFFFFF))\<rparr>"

text \<open>
  Scenario 3 of the specification: block 1 in bucket 4 with age 0, block 2 in bucket 3
  with age 100.
\<close>

definition cb_state :: ftl_state where
  "cb_state = boot_state\<lparr>
     block := (\<lambda>d. (\<lambda>b. blank_entry)
       (1 := \<lparr>invalidSliceCnt = 4, eraseCnt = 0, prevBlock = 0xFFFF, nextBlock = 0xFFFF\<rparr>,
        2 := \<lparr>invalidSliceCnt = 3, eraseCnt = 0, prevBlock = 0xFFFF, nextBlock = 0xFFFF\<rparr>)),
     gcVictimList := (\<lambda>d. (\<lambda>k. \<lparr>headBlock = 0xFFFF, tailBlock = 0xFFFF\<rparr>)
       (4 := \<lparr>headBlock = 1, tailBlock = 1\<rparr>, 3 := \<lparr>headBlock = 2, tailBlock = 2\<rparr>)),
     gcActivityTick := 100,
     gcLastEraseTick := (\<lambda>d. (\<lambda>b. 0)(1 := 100))\<rparr>"

definition cb_bl :: "u32 \<Rightarrow> blockno list" where
  "cb_bl = (\<lambda>k. [])(4 := [1], 3 := [2])"

text \<open>
  Two candidates, blocks 1 and 2 in this order in bucket 3, both with age 10, with
  erase counts \<open>w1\<close> and \<open>w2\<close> (scenario 4 of the specification has 1000 and 10).
\<close>

definition cat_pair_state :: "u32 \<Rightarrow> u32 \<Rightarrow> ftl_state" where
  "cat_pair_state w1 w2 = boot_state\<lparr>
     block := (\<lambda>d. (\<lambda>b. blank_entry)
       (1 := \<lparr>invalidSliceCnt = 3, eraseCnt = w1, prevBlock = 0xFFFF, nextBlock = 2\<rparr>,
        2 := \<lparr>invalidSliceCnt = 3, eraseCnt = w2, prevBlock = 1, nextBlock = 0xFFFF\<rparr>)),
     gcVictimList := (\<lambda>d. (\<lambda>k. \<lparr>headBlock = 0xFFFF, tailBlock = 0xFFFF\<rparr>)
       (3 := \<lparr>headBlock = 1, tailBlock = 2\<rparr>)),
     gcActivityTick := 10\<rparr>"

definition cat_pair_bl :: "u32 \<Rightarrow> blockno list" where
  "cat_pair_bl = (\<lambda>k. [])(3 := [1, 2])"

text \<open>The block a selection returns, if it returns one.\<close>

definition victim_of :: "(gc_error + blockno \<times> ftl_state) option \<Rightarrow> blockno option" where
  "victim_of r = (case r of Some (Inr (v, s')) \<Rightarrow> Some v | _ \<Rightarrow> None)"

text \<open>
  The descriptor the collector has built when it hands a request over (section 6 of
  the specification): every field of the pool entry has been assigned.
\<close>

definition gc_request :: "req_code \<Rightarrow> u32 \<Rightarrow> u32 \<Rightarrow> u32 \<Rightarrow> SSD_REQ_FORMAT" where
  "gc_request code lsa entry vsa =
     \<lparr>reqType = REQ_TYPE_NAND, reqCode = code, logicalSliceAddr = lsa,
      dataBufFormat = REQ_OPT_DATA_BUF_TEMP_ENTRY, nandAddr = REQ_OPT_NAND_ADDR_VSA,
      nandEcc = REQ_OPT_NAND_ECC_ON, nandEccWarning = REQ_OPT_NAND_ECC_WARNING_OFF,
      rowAddrDependencyCheck = REQ_OPT_ROW_ADDR_DEPENDENCY_CHECK,
      blockSpace = REQ_OPT_BLOCK_SPACE_MAIN, dataBufInfo_entry = entry,
      nandInfo_virtualSliceAddr = vsa\<rparr>"

text \<open>
  The trace of one copied page: the slice at \<open>v\<close> with logical address \<open>L\<close> is read
  with request slot \<open>t1\<close> and buffer \<open>e1\<close> and written with slot \<open>t2\<close> and buffer
  \<open>e2\<close> to the destination \<open>dst\<close>.
\<close>

definition copy_chunk ::
  "u32 \<Rightarrow> blockno \<Rightarrow> u32 \<Rightarrow> u32 \<Rightarrow> u32 \<Rightarrow> u32 \<Rightarrow> u32 \<Rightarrow> u32 \<Rightarrow> u32 \<Rightarrow> event list" where
  "copy_chunk dieNo victim v L t1 e1 t2 e2 dst =
     [Ev_GetFromFreeReqQ t1,
      Ev_AllocateTempDataBuf dieNo e1,
      Ev_UpdateTempDataBufEntryInfoBlockingReq e1 t1,
      Ev_SelectLowLevelReqQ t1 (gc_request REQ_CODE_READ L e1 v),
      Ev_GetFromFreeReqQ t2,
      Ev_AllocateTempDataBuf dieNo e2,
      Ev_UpdateTempDataBufEntryInfoBlockingReq e2 t2,
      Ev_FindFreeVirtualSliceForGc dieNo victim dst,
      Ev_store_logicalSlice L dst,
      Ev_store_virtualSlice dst L,
      Ev_SelectLowLevelReqQ t2 (gc_request REQ_CODE_WRITE L e2 dst)]"

text \<open>
  Scenario 2 of the specification: block 1 of die 0 sits in bucket 3; its page 2
  (virtual slice 6) is live with logical address 7; its page 0 (virtual slice 4)
  carries the stale back-pointer 9, whose slice has moved to 50; pages 1 and 3 are
  unmapped.
\<close>

definition gc_state :: ftl_state where
  "gc_state = boot_state\<lparr>
     block := (\<lambda>d. (\<lambda>b. blank_entry)
       (1 := \<lparr>invalidSliceCnt = 3, eraseCnt = 0, prevBlock = 0xFFFF, nextBlock = 0xFFFF\<rparr>)),
     gcVictimList := (\<lambda>d. (\<lambda>k. \<lparr>headBlock = 0xFFFF, tailBlock = 0xFFFF\<rparr>)
       (3 := \<lparr>headBlock = 1, tailBlock = 1\<rparr>)),
     virtualSlice := (\<lambda>v. 0xFFFFFFFF)(6 := 7, 4 := 9),
     logicalSlice := (\<lambda>l. 0xFFFFFFFF)(7 := 6, 9 := 50)\<rparr>"

text \<open>The trace of a run, if the run does not stop at the assertion.\<close>

definition trace_of :: "gc_error + ftl_state \<Rightarrow> event list option" where
  "trace_of r = (case r of Inl e \<Rightarrow> None | Inr s \<Rightarrow> Some (events s))"


section \<open>Lemmas\<close>

subsection \<open>Chains in the block map\<close>

lemma set_bucket_counts: "set (bucket_counts cfg) = {k. k \<le> SLICES_PER_BLOCK cfg}"
proof
  show "set (bucket_counts cfg) \<subseteq> {k. k \<le> SLICES_PER_BLOCK cfg}"
  proof
    fix k assume "k \<in> set (bucket_counts cfg)"
    then have "k \<in> of_nat ` {0 ..< Suc (unat (SLICES_PER_BLOCK cfg))}"
      by (simp only: bucket_counts_def set_map set_upt)
    then obtain n where "n \<in> {0 ..< Suc (unat (SLICES_PER_BLOCK cfg))}" and kn: "k = of_nat n"
      by blast
    then have n: "n \<le> unat (SLICES_PER_BLOCK cfg)" "k = of_nat n" by simp_all
    have "unat (SLICES_PER_BLOCK cfg) < 2 ^ 32" using unsigned_less[of "SLICES_PER_BLOCK cfg"] by simp
    with n have "unat k = n" by (simp add: unat_of_nat)
    with n show "k \<in> {k. k \<le> SLICES_PER_BLOCK cfg}" by (simp add: word_le_nat_alt)
  qed
  show "{k. k \<le> SLICES_PER_BLOCK cfg} \<subseteq> set (bucket_counts cfg)"
  proof
    fix k assume "k \<in> {k. k \<le> SLICES_PER_BLOCK cfg}"
    then have "unat k \<le> unat (SLICES_PER_BLOCK cfg)" by (simp add: word_le_nat_alt)
    then have "unat k \<in> set [0 ..< Suc (unat (SLICES_PER_BLOCK cfg))]"
      by (simp only: set_upt atLeastLessThan_iff less_Suc_eq_le) simp
    then have "of_nat (unat k) \<in> set (bucket_counts cfg)" unfolding bucket_counts_def by (metis image_eqI set_map)
    then show "k \<in> set (bucket_counts cfg)" by simp
  qed
qed

lemma dseg_frame: "(\<And>x. x \<in> set xs \<Longrightarrow> m' x = m x) \<Longrightarrow> dseg m' p xs q = dseg m p xs q"
  by (induction xs arbitrary: p) auto

lemma dseg_append:
  "dseg m p (xs @ ys) q = (dseg m p xs (first_or ys q) \<and> dseg m (last_or p xs) ys q)"
  by (induction xs arbitrary: p) (auto simp: first_or_def last_or_def split: list.splits)

lemma dseg_set_last_next:
  "dseg m p xs q \<Longrightarrow> xs \<noteq> [] \<Longrightarrow> distinct xs \<Longrightarrow>
   dseg (m(last xs := (m (last xs))\<lparr>nextBlock := q'\<rparr>)) p xs q'"
proof (induction xs arbitrary: p)
  case Nil then show ?case by simp
next
  case (Cons x xs)
  show ?case
  proof (cases xs)
    case Nil
    with Cons.prems show ?thesis by (simp add: first_or_def)
  next
    case (Cons y ys)
    have l: "last (x # xs) = last xs" using Cons by simp
    have "last xs \<in> set xs" using Cons by simp
    then have ne: "last xs \<noteq> x" using Cons.prems(3) by auto
    have d: "dseg m x xs q" "xs \<noteq> []" "distinct xs" using Cons.prems Cons by simp_all
    have ih: "dseg (m(last xs := (m (last xs))\<lparr>nextBlock := q'\<rparr>)) x xs q'"
      by (rule Cons.IH[OF d])
    have px: "prevBlock (m x) = p" "nextBlock (m x) = first_or xs q" using Cons.prems(1) by simp_all
    have fo: "first_or xs q = first_or xs q'" using Cons by (simp add: first_or_def)
    have "prevBlock ((m(last xs := (m (last xs))\<lparr>nextBlock := q'\<rparr>)) x) = p"
         "nextBlock ((m(last xs := (m (last xs))\<lparr>nextBlock := q'\<rparr>)) x) = first_or xs q'"
      using px ne fo by simp_all
    with ih show ?thesis unfolding l by (simp only: dseg.simps simp_thms)
  qed
qed

lemma dseg_set_first_prev:
  "dseg m p xs q \<Longrightarrow> xs \<noteq> [] \<Longrightarrow> distinct xs \<Longrightarrow>
   dseg (m(hd xs := (m (hd xs))\<lparr>prevBlock := p'\<rparr>)) p' xs q"
proof (cases xs)
  case Nil then show "xs \<noteq> [] \<Longrightarrow> ?thesis" by simp
next
  case (Cons x ys)
  assume a: "dseg m p xs q" "distinct xs"
  have xn: "x \<notin> set ys" using a(2) Cons by simp
  have "dseg (m(x := (m x)\<lparr>prevBlock := p'\<rparr>)) x ys q = dseg m x ys q"
    by (rule dseg_frame) (use xn in auto)
  moreover have "nextBlock (m x) = first_or ys q" "dseg m x ys q" using a(1) Cons by simp_all
  ultimately show ?thesis using Cons by simp
qed

subsection \<open>Effect of the assignments\<close>

lemma block_set_prevBlock:
  "block (set_prevBlock s d b v) = (block s)(d := (block s d)(b := (block s d b)\<lparr>prevBlock := v\<rparr>))"
  by (simp add: set_prevBlock_def)

lemma block_set_nextBlock:
  "block (set_nextBlock s d b v) = (block s)(d := (block s d)(b := (block s d b)\<lparr>nextBlock := v\<rparr>))"
  by (simp add: set_nextBlock_def)

lemma block_set_headBlock: "block (set_headBlock s d k v) = block s"
  by (simp add: set_headBlock_def)

lemma block_set_tailBlock: "block (set_tailBlock s d k v) = block s"
  by (simp add: set_tailBlock_def)

lemma gcVictimList_set_prevBlock: "gcVictimList (set_prevBlock s d b v) = gcVictimList s"
  by (simp add: set_prevBlock_def)

lemma gcVictimList_set_nextBlock: "gcVictimList (set_nextBlock s d b v) = gcVictimList s"
  by (simp add: set_nextBlock_def)

lemma gcVictimList_set_headBlock:
  "gcVictimList (set_headBlock s d k v) =
     (gcVictimList s)(d := (gcVictimList s d)(k := (gcVictimList s d k)\<lparr>headBlock := v\<rparr>))"
  by (simp add: set_headBlock_def)

lemma gcVictimList_set_tailBlock:
  "gcVictimList (set_tailBlock s d k v) =
     (gcVictimList s)(d := (gcVictimList s d)(k := (gcVictimList s d k)\<lparr>tailBlock := v\<rparr>))"
  by (simp add: set_tailBlock_def)

lemmas setter_simps =
  block_set_prevBlock block_set_nextBlock block_set_headBlock block_set_tailBlock
  gcVictimList_set_prevBlock gcVictimList_set_nextBlock gcVictimList_set_headBlock
  gcVictimList_set_tailBlock

lemma Put_greedy_block:
  "block (PutToGcVictimList_greedy cfg s d b cnt) d =
     (if tailBlock (gcVictimList s d cnt) \<noteq> BLOCK_NONE cfg then
        (let m1 = (block s d)(b := (block s d b)\<lparr>prevBlock := tailBlock (gcVictimList s d cnt),
                                                   nextBlock := BLOCK_NONE cfg\<rparr>)
         in m1(tailBlock (gcVictimList s d cnt) :=
                 (m1 (tailBlock (gcVictimList s d cnt)))\<lparr>nextBlock := b\<rparr>))
      else (block s d)(b := (block s d b)\<lparr>prevBlock := BLOCK_NONE cfg, nextBlock := BLOCK_NONE cfg\<rparr>))"
  by (simp add: PutToGcVictimList_greedy_def Let_def setter_simps)

lemma Put_greedy_list:
  "gcVictimList (PutToGcVictimList_greedy cfg s d b cnt) d =
     (if tailBlock (gcVictimList s d cnt) \<noteq> BLOCK_NONE cfg then
        (gcVictimList s d)(cnt := (gcVictimList s d cnt)\<lparr>tailBlock := b\<rparr>)
      else (gcVictimList s d)(cnt := (gcVictimList s d cnt)\<lparr>headBlock := b, tailBlock := b\<rparr>))"
  by (simp add: PutToGcVictimList_greedy_def Let_def setter_simps)

subsection \<open>Buckets and the index\<close>

lemma bucket_ok_frame:
  assumes "bucket_ok cfg m e k xs" and "\<And>x. x \<in> set xs \<Longrightarrow> m' x = m x"
    and "headBlock e' = headBlock e" and "tailBlock e' = tailBlock e"
  shows "bucket_ok cfg m' e' k xs"
proof -
  have "dseg m' (BLOCK_NONE cfg) xs (BLOCK_NONE cfg) = dseg m (BLOCK_NONE cfg) xs (BLOCK_NONE cfg)"
    by (rule dseg_frame) (rule assms(2))
  with assms show ?thesis unfolding bucket_ok_def by simp
qed

lemma index_wf_word:
  "index_wf cfg s d bl \<longleftrightarrow>
     (\<forall>k \<le> SLICES_PER_BLOCK cfg. bucket_ok cfg (block s d) (gcVictimList s d k) k (bl k)) \<and>
     (\<forall>j \<le> SLICES_PER_BLOCK cfg. \<forall>k \<le> SLICES_PER_BLOCK cfg. j \<noteq> k \<longrightarrow> set (bl j) \<inter> set (bl k) = {})"
  by (simp add: index_wf_def set_bucket_counts)

lemma buckets_disjoint:
  "bucket_ok cfg m e j xs \<Longrightarrow> bucket_ok cfg m e' k ys \<Longrightarrow> j \<noteq> k \<Longrightarrow> set xs \<inter> set ys = {}"
  by (auto simp: bucket_ok_def)

lemma index_wfI:
  assumes "\<And>k. k \<le> SLICES_PER_BLOCK cfg \<Longrightarrow> bucket_ok cfg (block s d) (gcVictimList s d k) k (bl k)"
  shows "index_wf cfg s d bl"
  unfolding index_wf_word using assms buckets_disjoint by blast

lemma index_wf_bucket:
  "index_wf cfg s d bl \<Longrightarrow> k \<le> SLICES_PER_BLOCK cfg \<Longrightarrow>
   bucket_ok cfg (block s d) (gcVictimList s d k) k (bl k)"
  by (simp add: index_wf_word)

lemma index_wf_disjoint:
  "index_wf cfg s d bl \<Longrightarrow> j \<le> SLICES_PER_BLOCK cfg \<Longrightarrow> k \<le> SLICES_PER_BLOCK cfg \<Longrightarrow> j \<noteq> k \<Longrightarrow>
   x \<in> set (bl j) \<Longrightarrow> x \<notin> set (bl k)"
  unfolding index_wf_word by blast

lemma bucket_ok_tail_NONE:
  "bucket_ok cfg m e k xs \<Longrightarrow> (tailBlock e = BLOCK_NONE cfg) = (xs = [])"
  unfolding bucket_ok_def valid_block_def last_or_def by (metis last_in_set)

lemma bucket_ok_head_NONE:
  "bucket_ok cfg m e k xs \<Longrightarrow> (headBlock e = BLOCK_NONE cfg) = (xs = [])"
  unfolding bucket_ok_def valid_block_def first_or_def by (cases xs) auto

subsection \<open>Insertion and removal keep the index well formed\<close>

lemma Put_greedy_wf:
  assumes wf: "index_wf cfg s d bl" and cnt: "cnt \<le> SLICES_PER_BLOCK cfg"
    and vb: "valid_block cfg b" and fresh: "\<forall>k \<le> SLICES_PER_BLOCK cfg. b \<notin> set (bl k)"
    and c: "invalidSliceCnt (block s d b) = cnt"
  shows "index_wf cfg (PutToGcVictimList_greedy cfg s d b cnt) d (bl(cnt := bl cnt @ [b]))"
proof (rule index_wfI)
  fix k assume k: "k \<le> SLICES_PER_BLOCK cfg"
  let ?s' = "PutToGcVictimList_greedy cfg s d b cnt"
  let ?m = "block s d" and ?e = "gcVictimList s d cnt" and ?N = "BLOCK_NONE cfg"
  let ?xs = "bl cnt"
  have ok: "bucket_ok cfg ?m ?e cnt ?xs" using wf cnt by (rule index_wf_bucket)
  have bxs: "b \<notin> set ?xs" using fresh cnt by simp
  show "bucket_ok cfg (block ?s' d) (gcVictimList ?s' d k) k ((bl(cnt := bl cnt @ [b])) k)"
  proof (cases "k = cnt")
    case True
    show ?thesis
    proof (cases "?xs = []")
      case Nil: True
      then have t: "tailBlock ?e = ?N" using bucket_ok_tail_NONE[OF ok] by simp
      show ?thesis using \<open>k = cnt\<close> Nil vb c unfolding bucket_ok_def
        by (simp add: Put_greedy_block Put_greedy_list t first_or_def last_or_def)
    next
      case False
      then have t: "tailBlock ?e \<noteq> ?N" using bucket_ok_tail_NONE[OF ok] by simp
      have tl: "tailBlock ?e = last ?xs" using ok False by (simp add: bucket_ok_def last_or_def)
      have tb: "last ?xs \<noteq> b" using bxs False last_in_set by metis
      let ?m1 = "?m(last ?xs := (?m (last ?xs))\<lparr>nextBlock := b\<rparr>)"
      let ?m' = "block ?s' d"
      have m'b: "?m' b = (?m b)\<lparr>prevBlock := last ?xs, nextBlock := ?N\<rparr>"
        using t tb by (simp add: Put_greedy_block tl Let_def)
      have m'x: "\<And>x. x \<in> set ?xs \<Longrightarrow> ?m' x = ?m1 x"
        using t tb bxs by (auto simp add: Put_greedy_block tl Let_def)
      have d0: "dseg ?m ?N ?xs ?N" "distinct ?xs" using ok by (simp_all add: bucket_ok_def)
      have "dseg ?m1 ?N ?xs b" by (rule dseg_set_last_next[OF d0(1) False d0(2)])
      then have d1: "dseg ?m' ?N ?xs b" using dseg_frame[of ?xs ?m' ?m1, OF m'x] by simp
      have d2: "dseg ?m' ?N (?xs @ [b]) ?N"
        using d1 m'b False by (simp add: dseg_append first_or_def last_or_def)
      have "\<And>x. x \<in> set ?xs \<Longrightarrow> valid_block cfg x \<and> invalidSliceCnt (?m x) = cnt"
        using ok by (simp add: bucket_ok_def)
      then have cn: "\<And>x. x \<in> set ?xs \<Longrightarrow> valid_block cfg x \<and> invalidSliceCnt (?m' x) = cnt"
        using m'x by auto
      have hd: "headBlock (gcVictimList ?s' d cnt) = first_or (?xs @ [b]) ?N"
        using t ok False by (cases ?xs) (simp_all add: Put_greedy_list bucket_ok_def first_or_def)
      have tl': "tailBlock (gcVictimList ?s' d cnt) = last_or ?N (?xs @ [b])"
        using t by (simp add: Put_greedy_list last_or_def)
      show ?thesis using \<open>k = cnt\<close> hd tl' d2 d0(2) bxs cn vb c m'b
        unfolding bucket_ok_def by auto
    qed
  next
    case False
    have okk: "bucket_ok cfg ?m (gcVictimList s d k) k (bl k)" using wf k by (rule index_wf_bucket)
    have nb: "\<And>x. x \<in> set (bl k) \<Longrightarrow> x \<noteq> b" using fresh k by auto
    have nt: "\<And>x. x \<in> set (bl k) \<Longrightarrow> ?xs \<noteq> [] \<Longrightarrow> x \<noteq> last ?xs"
      using index_wf_disjoint[OF wf k cnt False] last_in_set by metis
    have tl: "?xs \<noteq> [] \<Longrightarrow> tailBlock ?e = last ?xs" using ok by (simp add: bucket_ok_def last_or_def)
    have fr: "\<And>x. x \<in> set (bl k) \<Longrightarrow> block ?s' d x = ?m x"
      using nb nt tl bucket_ok_tail_NONE[OF ok] by (auto simp add: Put_greedy_block Let_def)
    have "bucket_ok cfg (block ?s' d) (gcVictimList ?s' d k) k (bl k)"
      using okk fr by (rule bucket_ok_frame) (use False in \<open>simp_all add: Put_greedy_list\<close>)
    then show ?thesis using False by simp
  qed
qed

lemma dseg_unlink:
  assumes d: "dseg m p (pre @ b # post) q" and dist: "distinct (pre @ b # post)"
    and m1: "m1 = (if pre \<noteq> [] then m(last pre := (m (last pre))\<lparr>nextBlock := first_or post q\<rparr>) else m)"
    and m2: "m2 = (if post \<noteq> [] then m1(hd post := (m1 (hd post))\<lparr>prevBlock := last_or p pre\<rparr>) else m1)"
  shows "dseg m2 p (pre @ post) q"
proof -
  have dpre: "dseg m p pre b" and dpost: "dseg m b post q"
    using d by (simp_all add: dseg_append first_or_def)
  have dp: "distinct pre" "distinct post" "set pre \<inter> set post = {}" using dist by auto
  have part1: "dseg m2 p pre (first_or post q)"
  proof (cases "pre = []")
    case True then show ?thesis by simp
  next
    case False
    have a: "dseg m1 p pre (first_or post q)"
      unfolding m1 using False dseg_set_last_next[OF dpre False dp(1)] by simp
    have "\<And>x. x \<in> set pre \<Longrightarrow> m2 x = m1 x"
    proof -
      fix x assume x: "x \<in> set pre"
      show "m2 x = m1 x"
      proof (cases "post = []")
        case True then show ?thesis by (simp add: m2)
      next
        case False
        then have "hd post \<in> set post" by simp
        with x dp(3) have "x \<noteq> hd post" by auto
        then show ?thesis using False by (simp add: m2)
      qed
    qed
    then have "dseg m2 p pre (first_or post q) = dseg m1 p pre (first_or post q)"
      by (rule dseg_frame)
    with a show ?thesis by simp
  qed
  have part2: "dseg m2 (last_or p pre) post q"
  proof (cases "post = []")
    case True then show ?thesis by simp
  next
    case False
    have "\<And>x. x \<in> set post \<Longrightarrow> m1 x = m x"
    proof -
      fix x assume x: "x \<in> set post"
      show "m1 x = m x"
      proof (cases "pre = []")
        case True then show ?thesis by (simp add: m1)
      next
        case False
        then have "last pre \<in> set pre" by simp
        with x dp(3) have "x \<noteq> last pre" by auto
        then show ?thesis using False by (simp add: m1)
      qed
    qed
    then have "dseg m1 b post q = dseg m b post q" by (rule dseg_frame)
    with dpost have "dseg m1 b post q" by simp
    from dseg_set_first_prev[OF this False dp(2)] show ?thesis using False by (simp add: m2)
  qed
  show ?thesis using part1 part2 by (simp add: dseg_append)
qed

lemma SelectiveGet_block:
  "block (SelectiveGetFromGcVictimList cfg s d b) d =
     (let m = block s d; nx = nextBlock (m b); pv = prevBlock (m b) in
      if nx \<noteq> BLOCK_NONE cfg \<and> pv \<noteq> BLOCK_NONE cfg then
        (let m1 = m(pv := (m pv)\<lparr>nextBlock := nx\<rparr>) in m1(nx := (m1 nx)\<lparr>prevBlock := pv\<rparr>))
      else if nx = BLOCK_NONE cfg \<and> pv \<noteq> BLOCK_NONE cfg then m(pv := (m pv)\<lparr>nextBlock := BLOCK_NONE cfg\<rparr>)
      else if nx \<noteq> BLOCK_NONE cfg \<and> pv = BLOCK_NONE cfg then m(nx := (m nx)\<lparr>prevBlock := BLOCK_NONE cfg\<rparr>)
      else m)"
  by (simp add: SelectiveGetFromGcVictimList_def Let_def setter_simps)

lemma SelectiveGet_list:
  "gcVictimList (SelectiveGetFromGcVictimList cfg s d b) d =
     (let m = block s d; nx = nextBlock (m b); pv = prevBlock (m b);
          cnt = invalidSliceCnt (m b); L = gcVictimList s d in
      if nx \<noteq> BLOCK_NONE cfg \<and> pv \<noteq> BLOCK_NONE cfg then L
      else if nx = BLOCK_NONE cfg \<and> pv \<noteq> BLOCK_NONE cfg then L(cnt := (L cnt)\<lparr>tailBlock := pv\<rparr>)
      else if nx \<noteq> BLOCK_NONE cfg \<and> pv = BLOCK_NONE cfg then L(cnt := (L cnt)\<lparr>headBlock := nx\<rparr>)
      else L(cnt := (L cnt)\<lparr>headBlock := BLOCK_NONE cfg, tailBlock := BLOCK_NONE cfg\<rparr>))"
  by (simp add: SelectiveGetFromGcVictimList_def Let_def setter_simps)

lemma SelectiveGet_wf:
  assumes wf: "index_wf cfg s d bl" and k0: "k0 \<le> SLICES_PER_BLOCK cfg" and mem: "b \<in> set (bl k0)"
  shows "index_wf cfg (SelectiveGetFromGcVictimList cfg s d b) d (bl(k0 := remove1 b (bl k0)))"
proof (rule index_wfI)
  fix k assume k: "k \<le> SLICES_PER_BLOCK cfg"
  let ?s' = "SelectiveGetFromGcVictimList cfg s d b"
  let ?m = "block s d" and ?e = "gcVictimList s d k0" and ?N = "BLOCK_NONE cfg"
  let ?m' = "block ?s' d"
  have ok: "bucket_ok cfg ?m ?e k0 (bl k0)" using wf k0 by (rule index_wf_bucket)
  obtain pre post where sp: "bl k0 = pre @ b # post" using mem by (meson split_list)
  have dist: "distinct (pre @ b # post)" using ok sp by (simp add: bucket_ok_def)
  have bn: "b \<notin> set pre" "b \<notin> set post" using dist by auto
  have rm: "remove1 b (bl k0) = pre @ post" using bn by (simp add: sp remove1_append)
  have val: "\<And>x. x \<in> set (bl k0) \<Longrightarrow> x \<noteq> ?N \<and> invalidSliceCnt (?m x) = k0"
    using ok by (simp add: bucket_ok_def valid_block_def)
  have cb: "invalidSliceCnt (?m b) = k0" using val mem by simp
  have d: "dseg ?m ?N (pre @ b # post) ?N" using ok sp by (simp add: bucket_ok_def)
  have pv: "prevBlock (?m b) = last_or ?N pre" and nx: "nextBlock (?m b) = first_or post ?N"
    using d by (simp_all add: dseg_append)
  have pvN: "(prevBlock (?m b) = ?N) = (pre = [])"
    using val[of "last pre"] by (auto simp: pv last_or_def sp)
  have nxN: "(nextBlock (?m b) = ?N) = (post = [])"
    using val[of "hd post"] by (cases post) (auto simp: nx first_or_def sp)
  define m1 where "m1 = (if pre \<noteq> [] then ?m(last pre := (?m (last pre))\<lparr>nextBlock := first_or post ?N\<rparr>) else ?m)"
  define m2 where "m2 = (if post \<noteq> [] then m1(hd post := (m1 (hd post))\<lparr>prevBlock := last_or ?N pre\<rparr>) else m1)"
  have fo: "post \<noteq> [] \<Longrightarrow> first_or post ?N = hd post" by (cases post) (simp_all add: first_or_def)
  have pv': "pre \<noteq> [] \<Longrightarrow> prevBlock (?m b) = last pre" "pre = [] \<Longrightarrow> prevBlock (?m b) = ?N"
    by (simp_all add: pv last_or_def)
  have nx': "post \<noteq> [] \<Longrightarrow> nextBlock (?m b) = hd post" "post = [] \<Longrightarrow> nextBlock (?m b) = ?N"
    by (simp_all add: nx fo) (simp add: first_or_def)
  have ne: "pre \<noteq> [] \<Longrightarrow> last pre \<noteq> ?N" "post \<noteq> [] \<Longrightarrow> hd post \<noteq> ?N"
    using pvN nxN pv' nx' by auto
  have m'eq: "?m' = m2"
  proof (cases "pre = []")
    case True
    show ?thesis
    proof (cases "post = []")
      case True
      with \<open>pre = []\<close> show ?thesis
        by (simp add: SelectiveGet_block Let_def m2_def m1_def pv' nx')
    next
      case False
      with \<open>pre = []\<close> show ?thesis
        by (simp add: SelectiveGet_block Let_def m2_def m1_def pv' nx' ne last_or_def)
    qed
  next
    case False
    show ?thesis
    proof (cases "post = []")
      case True
      with \<open>pre \<noteq> []\<close> show ?thesis
        by (simp add: SelectiveGet_block Let_def m2_def m1_def pv' nx' ne first_or_def)
    next
      case False
      with \<open>pre \<noteq> []\<close> show ?thesis
        by (simp add: SelectiveGet_block Let_def m2_def m1_def pv' nx' ne fo last_or_def)
    qed
  qed
  have d2: "dseg m2 ?N (pre @ post) ?N"
    by (rule dseg_unlink[OF d dist m1_def m2_def])
  have cnt_same: "\<And>x. invalidSliceCnt (m2 x) = invalidSliceCnt (?m x)"
    by (simp add: m2_def m1_def)
  have chg: "\<And>x. x \<notin> set (bl k0) \<Longrightarrow> m2 x = ?m x"
  proof -
    fix x assume x: "x \<notin> set (bl k0)"
    have "pre \<noteq> [] \<Longrightarrow> x \<noteq> last pre" using x sp by auto
    moreover have "post \<noteq> [] \<Longrightarrow> x \<noteq> hd post" using x sp by (cases post) auto
    ultimately show "m2 x = ?m x" by (simp add: m2_def m1_def)
  qed
  show "bucket_ok cfg ?m' (gcVictimList ?s' d k) k ((bl(k0 := remove1 b (bl k0))) k)"
  proof (cases "k = k0")
    case True
    have hd: "headBlock (gcVictimList ?s' d k0) = first_or (pre @ post) ?N"
      using ok pvN nxN unfolding SelectiveGet_list Let_def cb
      by (cases pre; cases post) (auto simp: bucket_ok_def sp first_or_def nx pv)
    have tl: "tailBlock (gcVictimList ?s' d k0) = last_or ?N (pre @ post)"
      using ok pvN nxN unfolding SelectiveGet_list Let_def cb
      by (cases pre; cases post) (auto simp: bucket_ok_def sp last_or_def nx pv)
    have "\<forall>x \<in> set (pre @ post). valid_block cfg x \<and> invalidSliceCnt (m2 x) = k0"
      using ok by (auto simp: bucket_ok_def sp cnt_same)
    moreover have "distinct (pre @ post)" using dist by auto
    ultimately show ?thesis using True hd tl d2 unfolding bucket_ok_def m'eq rm by simp
  next
    case False
    have okk: "bucket_ok cfg ?m (gcVictimList s d k) k (bl k)" using wf k by (rule index_wf_bucket)
    have fr: "\<And>x. x \<in> set (bl k) \<Longrightarrow> ?m' x = ?m x"
      using index_wf_disjoint[OF wf k k0 False] chg by (simp add: m'eq)
    have "bucket_ok cfg ?m' (gcVictimList ?s' d k) k (bl k)"
      using okk fr by (rule bucket_ok_frame) (use False cb in \<open>simp_all add: SelectiveGet_list Let_def\<close>)
    then show ?thesis using False by simp
  qed
qed

subsection \<open>The scan as a fold over the candidates\<close>

lemma scan_list_dseg:
  "dseg (block s d) p xs (BLOCK_NONE cfg) \<Longrightarrow> \<forall>x \<in> set xs. x \<noteq> BLOCK_NONE cfg \<Longrightarrow>
   scan_list cfg score s d (first_or xs (BLOCK_NONE cfg)) best = Some (fold (pick score) xs best)"
proof (induction xs arbitrary: p best)
  case Nil
  show ?case by (subst scan_list.simps) (simp add: first_or_def)
next
  case (Cons x xs)
  have x: "x \<noteq> BLOCK_NONE cfg" and nx: "nextBlock (block s d x) = first_or xs (BLOCK_NONE cfg)"
    and d: "dseg (block s d) x xs (BLOCK_NONE cfg)" and v: "\<forall>x \<in> set xs. x \<noteq> BLOCK_NONE cfg"
    using Cons.prems by simp_all
  have "scan_list cfg score s d x best =
        scan_list cfg score s d (first_or xs (BLOCK_NONE cfg)) (pick score x best)"
    by (subst scan_list.simps) (simp add: x nx pick_def Let_def)
  also have "\<dots> = Some (fold (pick score) xs (pick score x best))"
    by (rule Cons.IH[OF d v])
  finally show ?case by (simp add: first_or_def)
qed

lemma of_nat_le_SLICES:
  "n \<le> unat (SLICES_PER_BLOCK cfg) \<Longrightarrow> (of_nat n :: u32) \<le> SLICES_PER_BLOCK cfg"
  by (simp add: word_le_nat_alt le_unat_uoi)

lemma scan_buckets_fold:
  assumes wf: "index_wf cfg s d bl"
  shows "n \<le> unat (SLICES_PER_BLOCK cfg) \<Longrightarrow>
         scan_buckets cfg score s d n best =
           Some (fold (pick score) (concat (map (\<lambda>i. bl (of_nat i)) (rev [1 ..< Suc n]))) best)"
proof (induction n arbitrary: best)
  case 0
  show ?case by simp
next
  case (Suc n)
  let ?k = "of_nat (Suc n) :: u32"
  have k: "?k \<le> SLICES_PER_BLOCK cfg" using Suc.prems by (rule of_nat_le_SLICES)
  have ok: "bucket_ok cfg (block s d) (gcVictimList s d ?k) ?k (bl ?k)"
    using wf k by (rule index_wf_bucket)
  have "scan_list cfg score s d (first_or (bl ?k) (BLOCK_NONE cfg)) best =
          Some (fold (pick score) (bl ?k) best)"
    by (rule scan_list_dseg) (use ok in \<open>auto simp: bucket_ok_def valid_block_def\<close>)
  moreover have "headBlock (gcVictimList s d ?k) = first_or (bl ?k) (BLOCK_NONE cfg)"
    using ok by (simp add: bucket_ok_def)
  moreover have "scan_buckets cfg score s d n (fold (pick score) (bl ?k) best) =
      Some (fold (pick score) (concat (map (\<lambda>i. bl (of_nat i)) (rev [1 ..< Suc n])))
              (fold (pick score) (bl ?k) best))"
    using Suc.prems by (intro Suc.IH) simp
  ultimately show ?case by simp
qed

lemma fold_pick:
  "fold (pick score) xs (b0, s0) = (b, sc) \<Longrightarrow>
     (b = b0 \<and> sc = s0 \<and> (\<forall>x \<in> set xs. score x \<le> s0)) \<or>
     (\<exists>pre post. xs = pre @ b # post \<and> sc = score b \<and> s0 < score b \<and>
        (\<forall>y \<in> set pre. score y < score b) \<and> (\<forall>y \<in> set post. score y \<le> score b))"
proof (induction xs arbitrary: b0 s0)
  case Nil
  then show ?case by simp
next
  case (Cons x xs)
  show ?case
  proof (cases "score x > s0")
    case True
    then have "pick score x (b0, s0) = (x, score x)" by (simp add: pick_def)
    then have "fold (pick score) xs (x, score x) = (b, sc)" using Cons.prems by simp
    from Cons.IH[OF this] show ?thesis
    proof
      assume "b = x \<and> sc = score x \<and> (\<forall>x' \<in> set xs. score x' \<le> score x)"
      then have "x # xs = [] @ b # xs \<and> sc = score b \<and> s0 < score b \<and>
          (\<forall>y \<in> set []. score y < score b) \<and> (\<forall>y \<in> set xs. score y \<le> score b)"
        using True by simp
      then show ?thesis by blast
    next
      assume "\<exists>pre post. xs = pre @ b # post \<and> sc = score b \<and> score x < score b \<and>
        (\<forall>y \<in> set pre. score y < score b) \<and> (\<forall>y \<in> set post. score y \<le> score b)"
      then obtain pre post where p: "xs = pre @ b # post" "sc = score b" "score x < score b"
        "\<forall>y \<in> set pre. score y < score b" "\<forall>y \<in> set post. score y \<le> score b" by blast
      then have "x # xs = (x # pre) @ b # post \<and> sc = score b \<and> s0 < score b \<and>
          (\<forall>y \<in> set (x # pre). score y < score b) \<and> (\<forall>y \<in> set post. score y \<le> score b)"
        using True by auto
      then show ?thesis by blast
    qed
  next
    case False
    then have "pick score x (b0, s0) = (b0, s0)" by (simp add: pick_def)
    then have "fold (pick score) xs (b0, s0) = (b, sc)" using Cons.prems by simp
    from Cons.IH[OF this] show ?thesis
    proof
      assume "b = b0 \<and> sc = s0 \<and> (\<forall>x \<in> set xs. score x \<le> s0)"
      then show ?thesis using False by auto
    next
      assume "\<exists>pre post. xs = pre @ b # post \<and> sc = score b \<and> s0 < score b \<and>
        (\<forall>y \<in> set pre. score y < score b) \<and> (\<forall>y \<in> set post. score y \<le> score b)"
      then obtain pre post where p: "xs = pre @ b # post" "sc = score b" "s0 < score b"
        "\<forall>y \<in> set pre. score y < score b" "\<forall>y \<in> set post. score y \<le> score b" by blast
      then have "x # xs = (x # pre) @ b # post \<and> sc = score b \<and> s0 < score b \<and>
          (\<forall>y \<in> set (x # pre). score y < score b) \<and> (\<forall>y \<in> set post. score y \<le> score b)"
        using False by auto
      then show ?thesis by blast
    qed
  qed
qed

lemma set_scan_order:
  "set (scan_order cfg bl) = {x. \<exists>k. 0 < k \<and> k \<le> SLICES_PER_BLOCK cfg \<and> x \<in> set (bl k)}"
proof -
  have a: "\<And>k::u32. 0 < k \<and> k \<le> SLICES_PER_BLOCK cfg \<longleftrightarrow>
       (\<exists>i. 1 \<le> i \<and> i < Suc (unat (SLICES_PER_BLOCK cfg)) \<and> k = of_nat i)"
  proof
    fix k :: u32
    assume "0 < k \<and> k \<le> SLICES_PER_BLOCK cfg"
    then have "1 \<le> unat k \<and> unat k < Suc (unat (SLICES_PER_BLOCK cfg)) \<and> k = of_nat (unat k)"
      by (simp add: word_le_nat_alt word_less_nat_alt)
    then show "\<exists>i. 1 \<le> i \<and> i < Suc (unat (SLICES_PER_BLOCK cfg)) \<and> k = of_nat i" by blast
  next
    fix k :: u32
    assume "\<exists>i. 1 \<le> i \<and> i < Suc (unat (SLICES_PER_BLOCK cfg)) \<and> k = of_nat i"
    then obtain i where i: "1 \<le> i" "i \<le> unat (SLICES_PER_BLOCK cfg)" "k = of_nat i" by auto
    then have "unat k = i" by (simp add: le_unat_uoi)
    with i show "0 < k \<and> k \<le> SLICES_PER_BLOCK cfg"
      by (simp add: word_le_nat_alt word_less_nat_alt)
  qed
  have b: "\<And>x. x \<in> set (scan_order cfg bl) \<longleftrightarrow>
      (\<exists>i. 1 \<le> i \<and> i < Suc (unat (SLICES_PER_BLOCK cfg)) \<and> x \<in> set (bl (of_nat i)))"
    unfolding scan_order_def by (auto simp del: upt_Suc)
  show ?thesis
  proof (rule set_eqI)
    fix x
    have "(\<exists>i. 1 \<le> i \<and> i < Suc (unat (SLICES_PER_BLOCK cfg)) \<and> x \<in> set (bl (of_nat i))) \<longleftrightarrow>
          (\<exists>k. 0 < k \<and> k \<le> SLICES_PER_BLOCK cfg \<and> x \<in> set (bl k))"
    proof
      assume "\<exists>i. 1 \<le> i \<and> i < Suc (unat (SLICES_PER_BLOCK cfg)) \<and> x \<in> set (bl (of_nat i))"
      then obtain i where i: "1 \<le> i \<and> i < Suc (unat (SLICES_PER_BLOCK cfg))"
        and x: "x \<in> set (bl (of_nat i))" by blast
      from i have "\<exists>j. 1 \<le> j \<and> j < Suc (unat (SLICES_PER_BLOCK cfg)) \<and> (of_nat i :: u32) = of_nat j"
        by blast
      then have "0 < (of_nat i :: u32) \<and> (of_nat i :: u32) \<le> SLICES_PER_BLOCK cfg"
        by (simp only: a)
      with x show "\<exists>k. 0 < k \<and> k \<le> SLICES_PER_BLOCK cfg \<and> x \<in> set (bl k)" by blast
    next
      assume "\<exists>k. 0 < k \<and> k \<le> SLICES_PER_BLOCK cfg \<and> x \<in> set (bl k)"
      then obtain k where k: "0 < k \<and> k \<le> SLICES_PER_BLOCK cfg" and x: "x \<in> set (bl k)"
        by blast
      from k have "\<exists>i. 1 \<le> i \<and> i < Suc (unat (SLICES_PER_BLOCK cfg)) \<and> k = of_nat i"
        by (simp only: a)
      with x show "\<exists>i. 1 \<le> i \<and> i < Suc (unat (SLICES_PER_BLOCK cfg)) \<and> x \<in> set (bl (of_nat i))"
        by blast
    qed
    then show "x \<in> set (scan_order cfg bl) \<longleftrightarrow>
          x \<in> {x. \<exists>k. 0 < k \<and> k \<le> SLICES_PER_BLOCK cfg \<and> x \<in> set (bl k)}"
      unfolding b mem_Collect_eq .
  qed
qed

lemma index_wf_frame:
  assumes wf: "index_wf cfg s d bl"
    and b: "\<And>k x. k \<le> SLICES_PER_BLOCK cfg \<Longrightarrow> x \<in> set (bl k) \<Longrightarrow> block s' d x = block s d x"
    and l: "gcVictimList s' d = gcVictimList s d"
  shows "index_wf cfg s' d bl"
proof (rule index_wfI)
  fix k assume k: "k \<le> SLICES_PER_BLOCK cfg"
  show "bucket_ok cfg (block s' d) (gcVictimList s' d k) k (bl k)"
    using index_wf_bucket[OF wf k] b[OF k] by (rule bucket_ok_frame) (simp_all add: l)
qed

lemma Detach_wf:
  assumes wf: "index_wf cfg s d bl" and k0: "k0 \<le> SLICES_PER_BLOCK cfg" and mem: "b \<in> set (bl k0)"
  shows "index_wf cfg (DetachBlockFromGcList cfg s d b) d (bl(k0 := remove1 b (bl k0)))"
proof -
  let ?s1 = "SelectiveGetFromGcVictimList cfg s d b"
  let ?bl = "bl(k0 := remove1 b (bl k0))"
  have wf1: "index_wf cfg ?s1 d ?bl" using wf k0 mem by (rule SelectiveGet_wf)
  have dist: "distinct (bl k0)" using index_wf_bucket[OF wf k0] by (simp add: bucket_ok_def)
  have nb: "\<And>k x. k \<le> SLICES_PER_BLOCK cfg \<Longrightarrow> x \<in> set (?bl k) \<Longrightarrow> x \<noteq> b"
  proof -
    fix k x assume k: "k \<le> SLICES_PER_BLOCK cfg" and x: "x \<in> set (?bl k)"
    show "x \<noteq> b"
    proof (cases "k = k0")
      case True
      with x dist show ?thesis by auto
    next
      case False
      with x have "x \<in> set (bl k)" by simp
      with index_wf_disjoint[OF wf k0 k _ mem] False show ?thesis by auto
    qed
  qed
  show ?thesis
    by (rule index_wf_frame[OF wf1])
       (use nb in \<open>auto simp: DetachBlockFromGcList_def Let_def setter_simps\<close>)
qed

subsection \<open>What the selections return\<close>

lemma greedy_pop_eq:
  assumes h: "headBlock (gcVictimList s d (of_nat (Suc n))) = b" and bN: "b \<noteq> BLOCK_NONE cfg"
    and pv: "prevBlock (block s d b) = BLOCK_NONE cfg"
    and c: "invalidSliceCnt (block s d b) = of_nat (Suc n)"
  shows "GetFromGcVictimList_greedy_loop cfg s d (Suc n) =
           Inr (b, SelectiveGetFromGcVictimList cfg s d b)"
proof (cases "nextBlock (block s d b) = BLOCK_NONE cfg")
  case True
  then show ?thesis using h bN pv c
    by (simp add: SelectiveGetFromGcVictimList_def Let_def)
next
  case False
  have "nextBlock (block (set_prevBlock s d (nextBlock (block s d b)) (BLOCK_NONE cfg)) d b)
          = nextBlock (block s d b)"
    by (simp add: setter_simps)
  then show ?thesis using False h bN pv c
    by (simp add: SelectiveGetFromGcVictimList_def Let_def)
qed

lemma greedy_loop_spec:
  assumes wf: "index_wf cfg s d bl"
  shows "n \<le> unat (SLICES_PER_BLOCK cfg) \<Longrightarrow>
     (GetFromGcVictimList_greedy_loop cfg s d n = Inl AssertionFailure \<and>
        (\<forall>i. 0 < i \<and> i \<le> n \<longrightarrow> bl (of_nat i) = [])) \<or>
     (\<exists>i. 0 < i \<and> i \<le> n \<and> bl (of_nat i) \<noteq> [] \<and>
        (\<forall>j. i < j \<and> j \<le> n \<longrightarrow> bl (of_nat j) = []) \<and>
        GetFromGcVictimList_greedy_loop cfg s d n =
          Inr (hd (bl (of_nat i)), SelectiveGetFromGcVictimList cfg s d (hd (bl (of_nat i)))))"
proof (induction n)
  case 0
  show ?case by simp
next
  case (Suc n)
  let ?k = "of_nat (Suc n) :: u32"
  have k: "?k \<le> SLICES_PER_BLOCK cfg" using Suc.prems by (rule of_nat_le_SLICES)
  have ok: "bucket_ok cfg (block s d) (gcVictimList s d ?k) ?k (bl ?k)"
    using wf k by (rule index_wf_bucket)
  show ?case
  proof (cases "bl ?k = []")
    case True
    then have "headBlock (gcVictimList s d ?k) = BLOCK_NONE cfg"
      using bucket_ok_head_NONE[OF ok] by simp
    then have eq: "GetFromGcVictimList_greedy_loop cfg s d (Suc n) =
                   GetFromGcVictimList_greedy_loop cfg s d n" by simp
    have ih: "(GetFromGcVictimList_greedy_loop cfg s d n = Inl AssertionFailure \<and>
        (\<forall>i. 0 < i \<and> i \<le> n \<longrightarrow> bl (of_nat i) = [])) \<or>
     (\<exists>i. 0 < i \<and> i \<le> n \<and> bl (of_nat i) \<noteq> [] \<and>
        (\<forall>j. i < j \<and> j \<le> n \<longrightarrow> bl (of_nat j) = []) \<and>
        GetFromGcVictimList_greedy_loop cfg s d n =
          Inr (hd (bl (of_nat i)), SelectiveGetFromGcVictimList cfg s d (hd (bl (of_nat i)))))"
      using Suc.prems by (intro Suc.IH) simp
    then show ?thesis
    proof
      assume a: "GetFromGcVictimList_greedy_loop cfg s d n = Inl AssertionFailure \<and>
        (\<forall>i. 0 < i \<and> i \<le> n \<longrightarrow> bl (of_nat i) = [])"
      have "\<forall>i. 0 < i \<and> i \<le> Suc n \<longrightarrow> bl (of_nat i) = []"
        using a True by (auto simp: le_Suc_eq)
      with a eq show ?thesis by simp
    next
      assume "\<exists>i. 0 < i \<and> i \<le> n \<and> bl (of_nat i) \<noteq> [] \<and>
        (\<forall>j. i < j \<and> j \<le> n \<longrightarrow> bl (of_nat j) = []) \<and>
        GetFromGcVictimList_greedy_loop cfg s d n =
          Inr (hd (bl (of_nat i)), SelectiveGetFromGcVictimList cfg s d (hd (bl (of_nat i))))"
      then obtain i where i: "0 < i" "i \<le> n" "bl (of_nat i) \<noteq> []"
        "\<forall>j. i < j \<and> j \<le> n \<longrightarrow> bl (of_nat j) = []"
        "GetFromGcVictimList_greedy_loop cfg s d n =
          Inr (hd (bl (of_nat i)), SelectiveGetFromGcVictimList cfg s d (hd (bl (of_nat i))))"
        by blast
      have "\<forall>j. i < j \<and> j \<le> Suc n \<longrightarrow> bl (of_nat j) = []"
        using i(4) True by (auto simp: le_Suc_eq)
      with i eq have "0 < i \<and> i \<le> Suc n \<and> bl (of_nat i) \<noteq> [] \<and>
        (\<forall>j. i < j \<and> j \<le> Suc n \<longrightarrow> bl (of_nat j) = []) \<and>
        GetFromGcVictimList_greedy_loop cfg s d (Suc n) =
          Inr (hd (bl (of_nat i)), SelectiveGetFromGcVictimList cfg s d (hd (bl (of_nat i))))"
        by simp
      then show ?thesis by blast
    qed
  next
    case False
    then obtain b rest where br: "bl ?k = b # rest" by (cases "bl ?k") auto
    have h: "headBlock (gcVictimList s d ?k) = b" using ok br by (simp add: bucket_ok_def first_or_def)
    have bN: "b \<noteq> BLOCK_NONE cfg" using ok br by (simp add: bucket_ok_def valid_block_def)
    have pv: "prevBlock (block s d b) = BLOCK_NONE cfg" using ok br by (simp add: bucket_ok_def)
    have c: "invalidSliceCnt (block s d b) = ?k" using ok br by (simp add: bucket_ok_def)
    have hdb: "hd (bl ?k) = b" using br by simp
    have res: "GetFromGcVictimList_greedy_loop cfg s d (Suc n) =
            Inr (hd (bl ?k), SelectiveGetFromGcVictimList cfg s d (hd (bl ?k)))"
      unfolding hdb using h bN pv c by (rule greedy_pop_eq)
    have "0 < Suc n \<and> Suc n \<le> Suc n \<and> bl (of_nat (Suc n)) \<noteq> [] \<and>
        (\<forall>j. Suc n < j \<and> j \<le> Suc n \<longrightarrow> bl (of_nat j) = []) \<and>
        GetFromGcVictimList_greedy_loop cfg s d (Suc n) =
          Inr (hd (bl (of_nat (Suc n))), SelectiveGetFromGcVictimList cfg s d (hd (bl (of_nat (Suc n)))))"
      using res False by (auto simp del: GetFromGcVictimList_greedy_loop.simps of_nat_Suc)
    then show ?thesis by blast
  qed
qed

lemma scored_spec:
  assumes wf: "index_wf cfg s d bl"
  shows "(GetFromGcVictimList_scored cfg score s d = Some (Inl AssertionFailure) \<and>
            (\<forall>x \<in> set (scan_order cfg bl). score x = 0)) \<or>
         (\<exists>pre b post. scan_order cfg bl = pre @ b # post \<and> 0 < score b \<and>
            (\<forall>y \<in> set pre. score y < score b) \<and> (\<forall>y \<in> set post. score y \<le> score b) \<and>
            GetFromGcVictimList_scored cfg score s d =
              Some (Inr (b, DetachBlockFromGcList cfg s d b)))"
proof -
  obtain b sc where f: "fold (pick score) (scan_order cfg bl) (BLOCK_FAIL cfg, 0) = (b, sc)"
    by (cases "fold (pick score) (scan_order cfg bl) (BLOCK_FAIL cfg, 0)") auto
  have sb: "scan_buckets cfg score s d (unat (SLICES_PER_BLOCK cfg)) (BLOCK_FAIL cfg, 0) = Some (b, sc)"
    using scan_buckets_fold[OF wf, of "unat (SLICES_PER_BLOCK cfg)" score "(BLOCK_FAIL cfg, 0)"] f
    by (simp add: scan_order_def)
  from fold_pick[OF f] show ?thesis
  proof
    assume a: "b = BLOCK_FAIL cfg \<and> sc = 0 \<and> (\<forall>x \<in> set (scan_order cfg bl). score x \<le> 0)"
    then have "GetFromGcVictimList_scored cfg score s d = Some (Inl AssertionFailure)"
      using sb by (simp add: GetFromGcVictimList_scored_def)
    moreover have "\<forall>x \<in> set (scan_order cfg bl). score x = 0" using a by simp
    ultimately show ?thesis by blast
  next
    assume "\<exists>pre post. scan_order cfg bl = pre @ b # post \<and> sc = score b \<and> 0 < score b \<and>
        (\<forall>y \<in> set pre. score y < score b) \<and> (\<forall>y \<in> set post. score y \<le> score b)"
    then obtain pre post where p: "scan_order cfg bl = pre @ b # post" "0 < score b"
        "\<forall>y \<in> set pre. score y < score b" "\<forall>y \<in> set post. score y \<le> score b" by blast
    have "b \<in> set (scan_order cfg bl)" using p(1) by simp
    then obtain k where k: "k \<le> SLICES_PER_BLOCK cfg" "b \<in> set (bl k)"
      unfolding set_scan_order by blast
    have "valid_block cfg b" using index_wf_bucket[OF wf k(1)] k(2) by (simp add: bucket_ok_def)
    then have "b \<noteq> BLOCK_FAIL cfg" by (simp add: valid_block_def)
    then have "GetFromGcVictimList_scored cfg score s d =
              Some (Inr (b, DetachBlockFromGcList cfg s d b))"
      using sb by (simp add: GetFromGcVictimList_scored_def)
    with p show ?thesis by blast
  qed
qed

subsection \<open>Evaluation on the concrete configuration\<close>

lemma sel4: "BLOCK_NONE cfg4 = 0xFFFF" "BLOCK_FAIL cfg4 = 0xFFFF" "SLICES_PER_BLOCK cfg4 = 4"
  "USER_PAGES_PER_BLOCK cfg4 = 4" "LSA_NONE cfg4 = 0xFFFFFFFF"
  by (simp_all add: cfg4_def)

lemma scan_buckets_numeral:
  "scan_buckets cfg score s d (numeral n) best =
     (case scan_list cfg score s d (headBlock (gcVictimList s d (numeral n))) best of
        None \<Rightarrow> None
      | Some best' \<Rightarrow> scan_buckets cfg score s d (pred_numeral n) best')"
proof -
  have "scan_buckets cfg score s d (Suc (pred_numeral n)) best =
     (case scan_list cfg score s d (headBlock (gcVictimList s d (of_nat (Suc (pred_numeral n))))) best of
        None \<Rightarrow> None
      | Some best' \<Rightarrow> scan_buckets cfg score s d (pred_numeral n) best')"
    by (rule scan_buckets.simps)
  then show ?thesis by (simp only: numeral_eq_Suc[symmetric] of_nat_numeral)
qed

subsection \<open>The index under the three policies\<close>

lemma index_wf_cong:
  "block s' d = block s d \<Longrightarrow> gcVictimList s' d = gcVictimList s d \<Longrightarrow>
   index_wf cfg s' d bl = index_wf cfg s d bl"
  by (simp add: index_wf_def)

lemma Put_cb_wf:
  assumes wf: "index_wf cfg s d bl" and cnt: "cnt \<le> SLICES_PER_BLOCK cfg"
    and vb: "valid_block cfg b" and fresh: "\<forall>k \<le> SLICES_PER_BLOCK cfg. b \<notin> set (bl k)"
    and c: "invalidSliceCnt (block s d b) = cnt"
  shows "index_wf cfg (PutToGcVictimList_cb cfg s d b cnt) d (bl(cnt := bl cnt @ [b]))"
proof -
  let ?s1 = "if cnt \<noteq> 0 then s\<lparr>gcActivityTick := gcActivityTick s + 1\<rparr> else s"
  have "index_wf cfg ?s1 d bl" using wf by (simp add: index_wf_def)
  moreover have "invalidSliceCnt (block ?s1 d b) = cnt" using c by simp
  ultimately have "index_wf cfg (PutToGcVictimList_greedy cfg ?s1 d b cnt) d (bl(cnt := bl cnt @ [b]))"
    using cnt vb fresh by (intro Put_greedy_wf)
  then show ?thesis by (cases "cnt = 0") (simp_all add: PutToGcVictimList_cb_def Let_def)
qed

lemma Put_cat_wf:
  assumes wf: "index_wf cfg s d bl" and cnt: "cnt \<le> SLICES_PER_BLOCK cfg"
    and vb: "valid_block cfg b" and fresh: "\<forall>k \<le> SLICES_PER_BLOCK cfg. b \<notin> set (bl k)"
    and c: "invalidSliceCnt (block s d b) = cnt"
  shows "index_wf cfg (PutToGcVictimList_cat cfg s d b cnt) d (bl(cnt := bl cnt @ [b]))"
proof -
  let ?s1 = "if cnt \<noteq> 0 then
               s\<lparr>gcActivityTick := gcActivityTick s + 1,
                 gcLastInvalidTick := (gcLastInvalidTick s)
                    (d := (gcLastInvalidTick s d)(b := gcActivityTick s + 1))\<rparr>
             else s"
  have "index_wf cfg ?s1 d bl" using wf by (simp add: index_wf_def)
  moreover have "invalidSliceCnt (block ?s1 d b) = cnt" using c by simp
  ultimately have "index_wf cfg (PutToGcVictimList_greedy cfg ?s1 d b cnt) d (bl(cnt := bl cnt @ [b]))"
    using cnt vb fresh by (intro Put_greedy_wf)
  then show ?thesis by (cases "cnt = 0") (simp_all add: PutToGcVictimList_cat_def Let_def)
qed

lemma Get_greedy_wf:
  assumes wf: "index_wf cfg s d bl" and g: "GetFromGcVictimList_greedy cfg s d = Inr (v, s')"
  shows "\<exists>k. 0 < k \<and> k \<le> SLICES_PER_BLOCK cfg \<and> bl k \<noteq> [] \<and> v = hd (bl k) \<and>
             (\<forall>j. k < j \<and> j \<le> SLICES_PER_BLOCK cfg \<longrightarrow> bl j = []) \<and>
             s' = SelectiveGetFromGcVictimList cfg s d v \<and>
             index_wf cfg s' d (bl(k := remove1 v (bl k)))"
proof -
  from greedy_loop_spec[OF wf, of "unat (SLICES_PER_BLOCK cfg)"] g
  obtain i where i: "0 < i" "i \<le> unat (SLICES_PER_BLOCK cfg)" "bl (of_nat i) \<noteq> []"
      "\<forall>j. i < j \<and> j \<le> unat (SLICES_PER_BLOCK cfg) \<longrightarrow> bl (of_nat j) = []"
      "v = hd (bl (of_nat i))" "s' = SelectiveGetFromGcVictimList cfg s d (hd (bl (of_nat i)))"
    unfolding GetFromGcVictimList_greedy_def by auto
  let ?k = "of_nat i :: u32"
  have ui: "unat ?k = i" using i(2) by (rule le_unat_uoi)
  have k: "?k \<le> SLICES_PER_BLOCK cfg" using i(2) by (rule of_nat_le_SLICES)
  have k0: "0 < ?k" using i(1) ui by (simp add: word_less_nat_alt)
  have mem: "v \<in> set (bl ?k)" using i(3,5) by simp
  have em: "\<forall>j. ?k < j \<and> j \<le> SLICES_PER_BLOCK cfg \<longrightarrow> bl j = []"
  proof (intro allI impI)
    fix j :: u32 assume j: "?k < j \<and> j \<le> SLICES_PER_BLOCK cfg"
    then have "i < unat j \<and> unat j \<le> unat (SLICES_PER_BLOCK cfg)"
      using ui by (simp add: word_less_nat_alt word_le_nat_alt)
    with i(4) have "bl (of_nat (unat j)) = []" by blast
    then show "bl j = []" by simp
  qed
  have "index_wf cfg s' d (bl(?k := remove1 v (bl ?k)))"
    unfolding i(6) i(5)[symmetric] using wf k mem by (rule SelectiveGet_wf)
  with k0 k i(3,5,6) em show ?thesis by blast
qed

lemma Get_scored_wf:
  assumes wf: "index_wf cfg s d bl" and g: "GetFromGcVictimList_scored cfg score s d = Some (Inr (v, s'))"
  shows "\<exists>k. 0 < k \<and> k \<le> SLICES_PER_BLOCK cfg \<and> v \<in> set (bl k) \<and>
             s' = DetachBlockFromGcList cfg s d v \<and>
             index_wf cfg s' d (bl(k := remove1 v (bl k)))"
proof -
  from scored_spec[OF wf, of score] g
  obtain pre post where p: "scan_order cfg bl = pre @ v # post"
    "s' = DetachBlockFromGcList cfg s d v" by auto
  then have "v \<in> set (scan_order cfg bl)" by simp
  then obtain k where k: "0 < k" "k \<le> SLICES_PER_BLOCK cfg" "v \<in> set (bl k)"
    unfolding set_scan_order by blast
  have "index_wf cfg s' d (bl(k := remove1 v (bl k)))"
    unfolding p(2) using wf k(2,3) by (rule Detach_wf)
  with k p(2) show ?thesis by blast
qed

subsection \<open>The activity clock\<close>

lemma c1_wf: "index_wf cfg4 c1_state 0 ((\<lambda>k. [])(1 := [1]))"
  by code_simp

lemma tick_setters:
  "gcActivityTick (set_prevBlock s d b v) = gcActivityTick s"
  "gcActivityTick (set_nextBlock s d b v) = gcActivityTick s"
  "gcActivityTick (set_headBlock s d k v) = gcActivityTick s"
  "gcActivityTick (set_tailBlock s d k v) = gcActivityTick s"
  by (simp_all add: set_prevBlock_def set_nextBlock_def set_headBlock_def set_tailBlock_def)

lemma tick_Put_greedy: "gcActivityTick (PutToGcVictimList_greedy cfg s d b cnt) = gcActivityTick s"
  by (simp add: PutToGcVictimList_greedy_def Let_def tick_setters)

lemma tick_SelectiveGet: "gcActivityTick (SelectiveGetFromGcVictimList cfg s d b) = gcActivityTick s"
  by (simp add: SelectiveGetFromGcVictimList_def Let_def tick_setters)

lemma tick_Detach: "gcActivityTick (DetachBlockFromGcList cfg s d b) = gcActivityTick s"
  by (simp add: DetachBlockFromGcList_def Let_def tick_setters tick_SelectiveGet)

lemma scored_result_state:
  "GetFromGcVictimList_scored cfg score s d = Some (Inr (v, s')) \<Longrightarrow>
   s' = DetachBlockFromGcList cfg s d v"
  by (auto simp: GetFromGcVictimList_scored_def split: option.splits if_splits prod.splits)

lemma greedy_loop_result_tick:
  "GetFromGcVictimList_greedy_loop cfg s d n = Inr (v, s') \<Longrightarrow> gcActivityTick s' = gcActivityTick s"
  by (induction n) (auto simp: Let_def tick_setters split: if_splits)

subsection \<open>Which entries an operation writes\<close>

lemma member_links:
  assumes wf: "index_wf cfg s d bl" and k: "k \<le> SLICES_PER_BLOCK cfg" and mem: "b \<in> set (bl k)"
  shows "(prevBlock (block s d b) = BLOCK_NONE cfg \<or> prevBlock (block s d b) \<in> set (bl k)) \<and>
         (nextBlock (block s d b) = BLOCK_NONE cfg \<or> nextBlock (block s d b) \<in> set (bl k)) \<and>
         prevBlock (block s d b) \<noteq> b \<and> nextBlock (block s d b) \<noteq> b \<and> b \<noteq> BLOCK_NONE cfg"
proof -
  have ok: "bucket_ok cfg (block s d) (gcVictimList s d k) k (bl k)" using wf k by (rule index_wf_bucket)
  obtain pre post where sp: "bl k = pre @ b # post" using mem by (meson split_list)
  have dist: "distinct (pre @ b # post)" using ok sp by (simp add: bucket_ok_def)
  have bN: "b \<noteq> BLOCK_NONE cfg" using ok mem by (simp add: bucket_ok_def valid_block_def)
  have d: "dseg (block s d) (BLOCK_NONE cfg) (pre @ b # post) (BLOCK_NONE cfg)"
    using ok sp by (simp add: bucket_ok_def)
  have pv: "prevBlock (block s d b) = last_or (BLOCK_NONE cfg) pre"
    and nx: "nextBlock (block s d b) = first_or post (BLOCK_NONE cfg)"
    using d by (simp_all add: dseg_append)
  have p1: "prevBlock (block s d b) = BLOCK_NONE cfg \<or> prevBlock (block s d b) \<in> set pre"
    by (simp add: pv last_or_def)
  have n1: "nextBlock (block s d b) = BLOCK_NONE cfg \<or> nextBlock (block s d b) \<in> set post"
    by (cases post) (simp_all add: nx first_or_def)
  have "b \<notin> set pre" "b \<notin> set post" using dist by auto
  with p1 n1 bN show ?thesis unfolding sp by auto
qed

lemma SelectiveGet_touches:
  assumes wf: "index_wf cfg s d bl" and k: "k \<le> SLICES_PER_BLOCK cfg" and mem: "m \<in> set (bl k)"
    and x: "x \<notin> set (bl k) \<or> x = m"
  shows "block (SelectiveGetFromGcVictimList cfg s d m) d x = block s d x"
proof -
  from member_links[OF wf k mem] x
  have "(prevBlock (block s d m) = BLOCK_NONE cfg \<or> prevBlock (block s d m) \<noteq> x) \<and>
        (nextBlock (block s d m) = BLOCK_NONE cfg \<or> nextBlock (block s d m) \<noteq> x)" by auto
  then show ?thesis by (auto simp: SelectiveGet_block Let_def)
qed

lemma Put_greedy_touches:
  assumes wf: "index_wf cfg s d bl" and c: "c \<le> SLICES_PER_BLOCK cfg"
    and x: "x \<noteq> m" "x \<notin> set (bl c)"
  shows "block (PutToGcVictimList_greedy cfg s d m c) d x = block s d x"
proof -
  have ok: "bucket_ok cfg (block s d) (gcVictimList s d c) c (bl c)" using wf c by (rule index_wf_bucket)
  have "tailBlock (gcVictimList s d c) \<noteq> BLOCK_NONE cfg \<Longrightarrow> tailBlock (gcVictimList s d c) \<in> set (bl c)"
    using bucket_ok_tail_NONE[OF ok] ok by (auto simp: bucket_ok_def last_or_def)
  then have "tailBlock (gcVictimList s d c) \<noteq> BLOCK_NONE cfg \<Longrightarrow> tailBlock (gcVictimList s d c) \<noteq> x"
    using x(2) by auto
  then show ?thesis using x(1) by (auto simp: Put_greedy_block Let_def)
qed

subsection \<open>Score arithmetic\<close>

lemma unat_ucast_32_64: "unat (ucast (x :: u32) :: u64) = unat x"
proof -
  have "unat x < 2 ^ 32" using unsigned_less[of x] by simp
  then have "unat x < 2 ^ 64" by simp
  then show ?thesis by (simp add: unsigned_ucast_eq take_bit_nat_eq_self)
qed

lemma unat_ucast_64_32: "unat (ucast (x :: u64) :: u32) = unat x mod 2 ^ 32"
  by (simp add: unsigned_ucast_eq take_bit_eq_mod)

lemma unat_plus1_32: "unat ((x :: u32) + 1) = (unat x + 1) mod 2 ^ 32"
  by (simp add: unat_word_ariths)

lemma unat_mult_64: "unat ((a :: u64) * b) = (unat a * unat b) mod 2 ^ 64"
  by (simp add: unat_word_ariths)

lemma valid_plus1:
  assumes "unat (i :: u32) \<le> unat (p :: u32)" and "unat p < 2 ^ 32 - 1"
  shows "unat (p - i + 1) = unat p - unat i + 1"
proof -
  have "i \<le> p" using assms(1) by (simp add: word_le_nat_alt)
  then have "unat (p - i) = unat p - unat i" by (rule unat_sub)
  moreover have "unat p - unat i + 1 < 2 ^ 32" using assms(2) by simp
  ultimately show ?thesis by (simp add: unat_plus1_32)
qed

lemma cb_score_nat:
  assumes "unat (invalidSliceCnt (block s d b)) \<le> unat (USER_PAGES_PER_BLOCK cfg)"
    and "unat (USER_PAGES_PER_BLOCK cfg) < 2 ^ 32 - 1"
  shows "unat (CalculateCostBenefitScore cfg s d b) =
         (if (unat (invalidSliceCnt (block s d b)) *
               ((unat (gcActivityTick s - gcLastEraseTick s d b) + 1) mod 2 ^ 32) *
               unat (USER_PAGES_PER_BLOCK cfg)) mod 2 ^ 64 = 0 then 0
          else (((unat (invalidSliceCnt (block s d b)) *
                   ((unat (gcActivityTick s - gcLastEraseTick s d b) + 1) mod 2 ^ 32) *
                   unat (USER_PAGES_PER_BLOCK cfg)) mod 2 ^ 64) div
                (unat (USER_PAGES_PER_BLOCK cfg) - unat (invalidSliceCnt (block s d b)) + 1))
               mod 2 ^ 32)"
proof -
  let ?i = "invalidSliceCnt (block s d b)" and ?p = "USER_PAGES_PER_BLOCK cfg"
  let ?a = "gcActivityTick s - gcLastEraseTick s d b"
  let ?benefit = "(ucast ?i :: u64) * (ucast (?a + 1) :: u64) * (ucast ?p :: u64)"
  let ?cost = "(ucast (?p - ?i + 1) :: u64)"
  have ub: "unat ?benefit = (unat ?i * ((unat ?a + 1) mod 2 ^ 32) * unat ?p) mod 2 ^ 64"
    by (simp add: unat_mult_64 unat_ucast_32_64 unat_plus1_32 mod_mult_left_eq)
  have uc: "unat ?cost = unat ?p - unat ?i + 1"
    by (simp add: unat_ucast_32_64 valid_plus1[OF assms])
  have c0: "?cost \<noteq> 0" using uc by (metis Suc_eq_plus1 nat.distinct(1) unat_0)
  have b0: "(?benefit = 0) = (unat ?benefit = 0)" by (simp add: unat_eq_0)
  show ?thesis
  proof (cases "?benefit = 0")
    case True
    then have "CalculateCostBenefitScore cfg s d b = 0"
      by (simp add: CalculateCostBenefitScore_def Let_def)
    moreover have "unat ?benefit = 0" using True by simp
    ultimately show ?thesis unfolding ub[symmetric] by simp
  next
    case False
    then have "CalculateCostBenefitScore cfg s d b = ucast (?benefit div ?cost)"
      using c0 by (simp add: CalculateCostBenefitScore_def Let_def)
    then have "unat (CalculateCostBenefitScore cfg s d b) = (unat ?benefit div unat ?cost) mod 2 ^ 32"
      by (simp add: unat_ucast_64_32 unat_div)
    moreover have "unat ?benefit \<noteq> 0" using False b0 by simp
    ultimately show ?thesis unfolding ub[symmetric] uc by simp
  qed
qed

lemma cb_score_exact:
  assumes "unat (invalidSliceCnt (block s d b)) \<le> unat (USER_PAGES_PER_BLOCK cfg)"
    and "unat (USER_PAGES_PER_BLOCK cfg) < 2 ^ 32 - 1"
    and age: "unat (gcActivityTick s - gcLastEraseTick s d b) < 2 ^ 32 - 1"
  shows "unat (CalculateCostBenefitScore cfg s d b) =
         cost_benefit_formula (unat (invalidSliceCnt (block s d b)))
           (unat (USER_PAGES_PER_BLOCK cfg) - unat (invalidSliceCnt (block s d b)))
           (unat (gcActivityTick s - gcLastEraseTick s d b))
           (unat (USER_PAGES_PER_BLOCK cfg))"
proof -
  have "unat (gcActivityTick s - gcLastEraseTick s d b) + 1 < 2 ^ 32" using age by simp
  then have a: "(unat (gcActivityTick s - gcLastEraseTick s d b) + 1) mod 2 ^ 32 =
      unat (gcActivityTick s - gcLastEraseTick s d b) + 1" by (rule mod_less)
  show ?thesis
    unfolding cb_score_nat[OF assms(1,2)] a cost_benefit_formula_def Let_def by (rule refl)
qed

lemma cb_score_pos:
  assumes ip: "unat (invalidSliceCnt (block s d b)) \<le> unat (USER_PAGES_PER_BLOCK cfg)"
    and pp: "unat (USER_PAGES_PER_BLOCK cfg) < 2 ^ 32 - 1"
    and i0: "0 < unat (invalidSliceCnt (block s d b))"
    and small: "unat (invalidSliceCnt (block s d b)) *
                (unat (gcActivityTick s - gcLastEraseTick s d b) + 1) *
                unat (USER_PAGES_PER_BLOCK cfg) < 2 ^ 32"
  shows "0 < unat (CalculateCostBenefitScore cfg s d b)"
proof -
  define I where "I = unat (invalidSliceCnt (block s d b))"
  define P where "P = unat (USER_PAGES_PER_BLOCK cfg)"
  define A where "A = unat (gcActivityTick s - gcLastEraseTick s d b)"
  have h: "0 < I" "I \<le> P" "I * (A + 1) * P < 2 ^ 32"
    using ip i0 small by (simp_all add: I_def P_def A_def)
  have P: "0 < P" using h(1,2) by simp
  have "1 * (A + 1) \<le> I * (A + 1)" by (rule mult_le_mono1) (use h(1) in simp)
  then have "A + 1 \<le> I * (A + 1)" by (simp only: mult_1)
  also have "\<dots> \<le> I * (A + 1) * P" using P by simp
  finally have a: "A + 1 < 2 ^ 32" using h(3) by simp
  have p64: "I * (A + 1) * P < 2 ^ 64"
  proof -
    have "(2::nat) ^ 32 < 2 ^ 64" by simp
    with h(3) show ?thesis by (rule less_trans)
  qed
  have "P \<le> (I * (A + 1)) * P" using h(1) by simp
  moreover have "P - I + 1 \<le> P" using h(1,2) by arith
  ultimately have ge: "P - I + 1 \<le> I * (A + 1) * P" by (rule le_trans[rotated])
  have "1 \<le> (P - I + 1) div (P - I + 1)" by simp
  also have "\<dots> \<le> (I * (A + 1) * P) div (P - I + 1)" using ge by (rule div_le_mono)
  finally have q1: "1 \<le> (I * (A + 1) * P) div (P - I + 1)" .
  have "(I * (A + 1) * P) div (P - I + 1) \<le> I * (A + 1) * P" by (rule div_le_dividend)
  then have q2: "(I * (A + 1) * P) div (P - I + 1) < 2 ^ 32" using h(3) by (rule le_less_trans)
  have pr: "(I * ((A + 1) mod 2 ^ 32) * P) mod 2 ^ 64 = I * (A + 1) * P"
    using a p64 by (simp only: mod_less)
  have nz: "I * (A + 1) * P \<noteq> 0" using h(1) P by simp
  have "unat (CalculateCostBenefitScore cfg s d b) = (I * (A + 1) * P) div (P - I + 1)"
    unfolding cb_score_nat[OF ip pp] I_def[symmetric] P_def[symmetric] A_def[symmetric] pr
    using nz q2 by (simp only: if_False mod_less)
  with q1 show ?thesis by simp
qed

lemma cat_score_nat:
  assumes "unat (invalidSliceCnt (block s d b)) \<le> unat (USER_PAGES_PER_BLOCK cfg)"
    and "unat (USER_PAGES_PER_BLOCK cfg) < 2 ^ 32 - 1"
    and w: "eraseCnt (block s d b) \<noteq> 0xFFFFFFFF"
  shows "unat (CalculateCatScore cfg s d b) =
         ((((unat (invalidSliceCnt (block s d b)) + 1) *
            ((unat (gcActivityTick s - gcLastInvalidTick s d b) + 1) mod 2 ^ 32)) mod 2 ^ 64) div
          ((unat (USER_PAGES_PER_BLOCK cfg) - unat (invalidSliceCnt (block s d b)) + 1) *
           (unat (eraseCnt (block s d b)) + 1))) mod 2 ^ 32"
proof -
  let ?i = "invalidSliceCnt (block s d b)" and ?p = "USER_PAGES_PER_BLOCK cfg"
  let ?a = "gcActivityTick s - gcLastInvalidTick s d b" and ?w = "eraseCnt (block s d b)"
  let ?num = "(ucast (?i + 1) :: u64) * (ucast (?a + 1) :: u64)"
  let ?den = "(ucast (?p - ?i + 1) :: u64) * (ucast (?w + 1) :: u64)"
  have i1: "unat (?i + 1) = unat ?i + 1"
  proof -
    have "unat ?i + 1 < 2 ^ 32" using assms(1,2) by simp
    then show ?thesis by (simp add: unat_plus1_32)
  qed
  have w1: "unat (?w + 1) = unat ?w + 1"
  proof -
    have "unat ?w \<noteq> unat (0xFFFFFFFF :: u32)" using w by (auto simp: word_unat_eq_iff)
    moreover have "unat ?w < 2 ^ 32" using unsigned_less[of ?w] by simp
    ultimately have "unat ?w + 1 < 2 ^ 32" by simp
    then show ?thesis by (simp add: unat_plus1_32)
  qed
  have un: "unat ?num = ((unat ?i + 1) * ((unat ?a + 1) mod 2 ^ 32)) mod 2 ^ 64"
  proof -
    have "unat ?num = (unat (?i + 1) * unat (?a + 1)) mod 2 ^ 64"
      by (simp only: unat_mult_64 unat_ucast_32_64)
    then show ?thesis unfolding i1 unat_plus1_32[of ?a] .
  qed
  have lt: "(unat ?p - unat ?i + 1) * (unat ?w + 1) < 2 ^ 64"
  proof -
    have "unat ?p - unat ?i + 1 < 2 ^ 32" using assms(2) by simp
    moreover have "unat ?w < 2 ^ 32" using unsigned_less[of ?w, where 'a=nat] by simp
    then have "unat ?w + 1 \<le> 2 ^ 32" by simp
    ultimately have "(unat ?p - unat ?i + 1) * (unat ?w + 1) < 2 ^ 32 * 2 ^ 32"
      by (intro mult_less_le_imp_less) simp_all
    then show ?thesis by simp
  qed
  have ud: "unat ?den = (unat ?p - unat ?i + 1) * (unat ?w + 1)"
  proof -
    have "unat ?den = (unat (?p - ?i + 1) * unat (?w + 1)) mod 2 ^ 64"
      by (simp only: unat_mult_64 unat_ucast_32_64)
    then have "unat ?den = ((unat ?p - unat ?i + 1) * (unat ?w + 1)) mod 2 ^ 64"
      unfolding valid_plus1[OF assms(1,2)] w1 .
    then show ?thesis using lt by (simp only: mod_less)
  qed
  have d0: "?den \<noteq> 0"
  proof
    assume "?den = 0"
    then have "unat ?den = 0" by simp
    then show False unfolding ud by simp
  qed
  have "CalculateCatScore cfg s d b = ucast (?num div ?den)"
    using d0 by (simp add: CalculateCatScore_def Let_def)
  then have "unat (CalculateCatScore cfg s d b) = (unat ?num div unat ?den) mod 2 ^ 32"
    by (simp add: unat_ucast_64_32 unat_div)
  then show ?thesis unfolding un ud by simp
qed

lemma cat_score_exact:
  assumes "unat (invalidSliceCnt (block s d b)) \<le> unat (USER_PAGES_PER_BLOCK cfg)"
    and "unat (USER_PAGES_PER_BLOCK cfg) < 2 ^ 32 - 1"
    and w: "eraseCnt (block s d b) \<noteq> 0xFFFFFFFF"
    and age: "unat (gcActivityTick s - gcLastInvalidTick s d b) < 2 ^ 32 - 1"
  shows "unat (CalculateCatScore cfg s d b) =
         cat_formula (unat (invalidSliceCnt (block s d b)))
           (unat (USER_PAGES_PER_BLOCK cfg) - unat (invalidSliceCnt (block s d b)))
           (unat (gcActivityTick s - gcLastInvalidTick s d b))
           (unat (eraseCnt (block s d b)))"
proof -
  have "unat (gcActivityTick s - gcLastInvalidTick s d b) + 1 < 2 ^ 32" using age by simp
  then have a: "(unat (gcActivityTick s - gcLastInvalidTick s d b) + 1) mod 2 ^ 32 =
      unat (gcActivityTick s - gcLastInvalidTick s d b) + 1" by (rule mod_less)
  show ?thesis
    unfolding cat_score_nat[OF assms(1,2,3)] a cat_formula_def by (rule refl)
qed

lemma cat_score_small:
  assumes ip: "unat (invalidSliceCnt (block s d b)) \<le> unat (USER_PAGES_PER_BLOCK cfg)"
    and pp: "unat (USER_PAGES_PER_BLOCK cfg) < 2 ^ 32 - 1"
    and w: "eraseCnt (block s d b) \<noteq> 0xFFFFFFFF"
    and small: "(unat (invalidSliceCnt (block s d b)) + 1) *
                (unat (gcActivityTick s - gcLastInvalidTick s d b) + 1) < 2 ^ 32"
  shows "unat (CalculateCatScore cfg s d b) =
         ((unat (invalidSliceCnt (block s d b)) + 1) *
          (unat (gcActivityTick s - gcLastInvalidTick s d b) + 1)) div
         ((unat (USER_PAGES_PER_BLOCK cfg) - unat (invalidSliceCnt (block s d b)) + 1) *
          (unat (eraseCnt (block s d b)) + 1))"
proof -
  define I where "I = unat (invalidSliceCnt (block s d b))"
  define V where "V = unat (USER_PAGES_PER_BLOCK cfg) - I"
  define A where "A = unat (gcActivityTick s - gcLastInvalidTick s d b)"
  define W where "W = unat (eraseCnt (block s d b))"
  have sm: "(I + 1) * (A + 1) < 2 ^ 32" using small by (simp add: I_def A_def)
  have "1 * (A + 1) \<le> (I + 1) * (A + 1)" by (rule mult_le_mono1) simp
  then have "A + 1 \<le> (I + 1) * (A + 1)" by (simp only: mult_1)
  then have a: "A + 1 < 2 ^ 32" using sm by (rule le_less_trans)
  have "(2::nat) ^ 32 < 2 ^ 64" by simp
  with sm have n64: "(I + 1) * (A + 1) < 2 ^ 64" by (rule less_trans)
  have "((I + 1) * (A + 1)) div ((V + 1) * (W + 1)) \<le> (I + 1) * (A + 1)" by (rule div_le_dividend)
  then have q: "((I + 1) * (A + 1)) div ((V + 1) * (W + 1)) < 2 ^ 32" using sm by (rule le_less_trans)
  show ?thesis
    unfolding cat_score_nat[OF ip pp w] I_def[symmetric] V_def[symmetric] A_def[symmetric]
      W_def[symmetric]
    using a n64 q by (simp only: mod_less)
qed

lemma div_wear_mono:
  assumes w: "(W1::nat) \<le> W2"
  shows "N div ((V + 1) * (W2 + 1)) \<le> N div ((V + 1) * (W1 + 1))"
proof -
  have "W1 + 1 \<le> W2 + 1" using w by arith
  then have "(V + 1) * (W1 + 1) \<le> (V + 1) * (W2 + 1)" by (rule mult_le_mono2)
  moreover have "0 < (V + 1) * (W1 + 1)" by simp
  ultimately show ?thesis by (intro div_le_mono2)
qed

lemma age_modular: "unat ((t :: u32) - l) = (unat t + 2 ^ 32 - unat l) mod 2 ^ 32"
proof -
  have lt: "unat t < 2 ^ 32" "unat l < 2 ^ 32"
    using unsigned_less[of t, where 'a=nat] unsigned_less[of l, where 'a=nat] by simp_all
  show ?thesis
  proof (cases "unat l \<le> unat t")
    case True
    then have e: "unat t + 2 ^ 32 - unat l = (unat t - unat l) + 2 ^ 32" by simp
    have "unat t - unat l < 2 ^ 32" using lt by simp
    then have "((unat t - unat l) + 2 ^ 32) mod 2 ^ 32 = unat t - unat l"
      by (simp only: mod_add_self2 mod_less)
    then show ?thesis unfolding e using True by (simp only: unat_sub_if_size if_True)
  next
    case False
    then have "unat t + 2 ^ 32 - unat l < 2 ^ 32" using lt by simp
    then show ?thesis using False by (simp add: unat_sub_if_size word_size)
  qed
qed

lemma cb_state_get:
  "GetFromGcVictimList_cb cfg4 cb_state 0 = Some (Inr (2, DetachBlockFromGcList cfg4 cb_state 0 2))"
  by (simp add: GetFromGcVictimList_cb_def GetFromGcVictimList_scored_def cb_state_def
        sel4 scan_buckets_numeral boot_state_def blank_entry_def scan_list.simps
        CalculateCostBenefitScore_def Let_def)

lemma cat_tie_get:
  "GetFromGcVictimList_cat cfg4 (cat_pair_state 12 11) 0 =
     Some (Inr (1, DetachBlockFromGcList cfg4 (cat_pair_state 12 11) 0 1))"
  by (simp add: GetFromGcVictimList_cat_def GetFromGcVictimList_scored_def cat_pair_state_def
        sel4 scan_buckets_numeral boot_state_def blank_entry_def scan_list.simps
        CalculateCatScore_def Let_def)

subsection \<open>Traces of the migration\<close>

lemma gc_request_full:
  "r\<lparr>reqType := REQ_TYPE_NAND, reqCode := code, logicalSliceAddr := lsa,
     dataBufFormat := REQ_OPT_DATA_BUF_TEMP_ENTRY, nandAddr := REQ_OPT_NAND_ADDR_VSA,
     nandEcc := REQ_OPT_NAND_ECC_ON, nandEccWarning := REQ_OPT_NAND_ECC_WARNING_OFF,
     rowAddrDependencyCheck := REQ_OPT_ROW_ADDR_DEPENDENCY_CHECK,
     blockSpace := REQ_OPT_BLOCK_SPACE_MAIN, dataBufInfo_entry := entry,
     nandInfo_virtualSliceAddr := vsa\<rparr> = gc_request code lsa entry vsa"
  by (cases r) (simp add: gc_request_def)

lemma gc_submit_read_effect:
  "\<exists>t1 e1. events (gc_submit_read cfg s d v L) =
      events s @ [Ev_GetFromFreeReqQ t1, Ev_AllocateTempDataBuf d e1,
                  Ev_UpdateTempDataBufEntryInfoBlockingReq e1 t1,
                  Ev_SelectLowLevelReqQ t1 (gc_request REQ_CODE_READ L e1 v)] \<and>
    logicalSlice (gc_submit_read cfg s d v L) = logicalSlice s \<and>
    virtualSlice (gc_submit_read cfg s d v L) = virtualSlice s"
  by (simp add: gc_submit_read_def call_GetFromFreeReqQ_def fill_request_def
        call_AllocateTempDataBuf_def set_dataBufInfo_entry_def
        call_UpdateTempDataBufEntryInfoBlockingReq_def set_nandInfo_virtualSliceAddr_def
        call_SelectLowLevelReqQ_def Let_def gc_request_full)

lemma gc_submit_write_effect:
  "\<exists>t2 e2 dst. events (gc_submit_write cfg s d victim L) =
      events s @ [Ev_GetFromFreeReqQ t2, Ev_AllocateTempDataBuf d e2,
                  Ev_UpdateTempDataBufEntryInfoBlockingReq e2 t2,
                  Ev_FindFreeVirtualSliceForGc d victim dst,
                  Ev_store_logicalSlice L dst, Ev_store_virtualSlice dst L,
                  Ev_SelectLowLevelReqQ t2 (gc_request REQ_CODE_WRITE L e2 dst)] \<and>
    logicalSlice (gc_submit_write cfg s d victim L) = (logicalSlice s)(L := dst) \<and>
    virtualSlice (gc_submit_write cfg s d victim L) = (virtualSlice s)(dst := L)"
  by (simp add: gc_submit_write_def call_GetFromFreeReqQ_def fill_request_def
        call_AllocateTempDataBuf_def set_dataBufInfo_entry_def
        call_UpdateTempDataBufEntryInfoBlockingReq_def set_nandInfo_virtualSliceAddr_def
        call_FindFreeVirtualSliceForGc_def store_logicalSlice_def store_virtualSlice_def
        call_SelectLowLevelReqQ_def Let_def gc_request_full)

lemma gc_page_effect:
  "(virtualSlice s (Vorg2VsaTranslation cfg d victim p) \<noteq> LSA_NONE cfg \<and>
    logicalSlice s (virtualSlice s (Vorg2VsaTranslation cfg d victim p)) =
      Vorg2VsaTranslation cfg d victim p \<longrightarrow>
      (\<exists>t1 e1 t2 e2 dst.
         events (gc_page cfg d victim p s) =
           events s @ copy_chunk d victim (Vorg2VsaTranslation cfg d victim p)
                        (virtualSlice s (Vorg2VsaTranslation cfg d victim p)) t1 e1 t2 e2 dst \<and>
         logicalSlice (gc_page cfg d victim p s)
           (virtualSlice s (Vorg2VsaTranslation cfg d victim p)) = dst \<and>
         virtualSlice (gc_page cfg d victim p s) dst =
           virtualSlice s (Vorg2VsaTranslation cfg d victim p))) \<and>
   (\<not> (virtualSlice s (Vorg2VsaTranslation cfg d victim p) \<noteq> LSA_NONE cfg \<and>
       logicalSlice s (virtualSlice s (Vorg2VsaTranslation cfg d victim p)) =
         Vorg2VsaTranslation cfg d victim p) \<longrightarrow>
      gc_page cfg d victim p s = s) \<and>
   (invalidSliceCnt (block s d victim) \<noteq> SLICES_PER_BLOCK cfg \<longrightarrow>
      gc_migrate cfg s d victim =
        call_EraseBlock (fold (gc_page cfg d victim) (gc_pages cfg) s) d victim) \<and>
   (invalidSliceCnt (block s d victim) = SLICES_PER_BLOCK cfg \<longrightarrow>
      gc_migrate cfg s d victim = call_EraseBlock s d victim)"
proof (intro conjI impI)
  let ?v = "Vorg2VsaTranslation cfg d victim p"
  let ?L = "virtualSlice s ?v"
  assume live: "?L \<noteq> LSA_NONE cfg \<and> logicalSlice s ?L = ?v"
  let ?s1 = "gc_submit_read cfg s d ?v ?L"
  have gp: "gc_page cfg d victim p s = gc_submit_write cfg ?s1 d victim ?L"
    using live by (simp add: gc_page_def Let_def)
  obtain t1 e1 where r: "events ?s1 = events s @ [Ev_GetFromFreeReqQ t1, Ev_AllocateTempDataBuf d e1,
                  Ev_UpdateTempDataBufEntryInfoBlockingReq e1 t1,
                  Ev_SelectLowLevelReqQ t1 (gc_request REQ_CODE_READ ?L e1 ?v)]"
    using gc_submit_read_effect[of cfg s d ?v ?L] by blast
  obtain t2 e2 dst where w: "events (gc_submit_write cfg ?s1 d victim ?L) =
      events ?s1 @ [Ev_GetFromFreeReqQ t2, Ev_AllocateTempDataBuf d e2,
                  Ev_UpdateTempDataBufEntryInfoBlockingReq e2 t2,
                  Ev_FindFreeVirtualSliceForGc d victim dst,
                  Ev_store_logicalSlice ?L dst, Ev_store_virtualSlice dst ?L,
                  Ev_SelectLowLevelReqQ t2 (gc_request REQ_CODE_WRITE ?L e2 dst)]"
    "logicalSlice (gc_submit_write cfg ?s1 d victim ?L) = (logicalSlice ?s1)(?L := dst)"
    "virtualSlice (gc_submit_write cfg ?s1 d victim ?L) = (virtualSlice ?s1)(dst := ?L)"
    using gc_submit_write_effect[of cfg ?s1 d victim ?L] by blast
  have "events (gc_page cfg d victim p s) = events s @ copy_chunk d victim ?v ?L t1 e1 t2 e2 dst"
    unfolding gp w(1) r by (simp add: copy_chunk_def)
  moreover have "logicalSlice (gc_page cfg d victim p s) ?L = dst" unfolding gp w(2) by simp
  moreover have "virtualSlice (gc_page cfg d victim p s) dst = ?L" unfolding gp w(3) by simp
  ultimately show "\<exists>t1 e1 t2 e2 dst.
         events (gc_page cfg d victim p s) = events s @ copy_chunk d victim ?v ?L t1 e1 t2 e2 dst \<and>
         logicalSlice (gc_page cfg d victim p s) ?L = dst \<and>
         virtualSlice (gc_page cfg d victim p s) dst = ?L" by blast
next
  assume "\<not> (virtualSlice s (Vorg2VsaTranslation cfg d victim p) \<noteq> LSA_NONE cfg \<and>
       logicalSlice s (virtualSlice s (Vorg2VsaTranslation cfg d victim p)) =
         Vorg2VsaTranslation cfg d victim p)"
  then show "gc_page cfg d victim p s = s" by (auto simp: gc_page_def Let_def)
next
  assume "invalidSliceCnt (block s d victim) \<noteq> SLICES_PER_BLOCK cfg"
  then show "gc_migrate cfg s d victim =
        call_EraseBlock (fold (gc_page cfg d victim) (gc_pages cfg) s) d victim"
    by (simp add: gc_migrate_def)
next
  assume "invalidSliceCnt (block s d victim) = SLICES_PER_BLOCK cfg"
  then show "gc_migrate cfg s d victim = call_EraseBlock s d victim"
    by (simp add: gc_migrate_def)
qed

lemma gc4: "Vorg2VsaTranslation cfg4 d b p = 4 * ucast b + p"
  "ext_GetFromFreeReqQ cfg4 tr = of_nat (length tr)"
  "ext_AllocateTempDataBuf cfg4 tr d = of_nat (length tr)"
  "ext_FindFreeVirtualSliceForGc cfg4 tr d b = 1000 + of_nat (length tr)"
  by (simp_all add: cfg4_def)

lemma gc_state_maps:
  "virtualSlice gc_state 4 = 9" "virtualSlice gc_state 5 = 0xFFFFFFFF" "virtualSlice gc_state 6 = 7"
  "virtualSlice gc_state 7 = 0xFFFFFFFF" "logicalSlice gc_state 7 = 6" "logicalSlice gc_state 9 = 50"
  "events gc_state = []"
  by (simp_all add: gc_state_def boot_state_def)

lemma gc_page_live_eval:
  "events (gc_page cfg4 0 1 2 gc_state) = copy_chunk 0 1 6 7 0 1 4 5 1007"
  by (simp add: gc_page_def gc4 gc_state_maps sel4 Let_def
        gc_submit_read_def gc_submit_write_def call_GetFromFreeReqQ_def fill_request_def
        call_AllocateTempDataBuf_def set_dataBufInfo_entry_def
        call_UpdateTempDataBufEntryInfoBlockingReq_def set_nandInfo_virtualSliceAddr_def
        call_FindFreeVirtualSliceForGc_def store_logicalSlice_def store_virtualSlice_def
        call_SelectLowLevelReqQ_def gc_request_full copy_chunk_def)

lemma gc_page_chunk:
  "events (gc_page cfg d victim p s) = events s \<or>
   (\<exists>v L t1 e1 t2 e2 dst.
      events (gc_page cfg d victim p s) = events s @ copy_chunk d victim v L t1 e1 t2 e2 dst)"
proof (cases "virtualSlice s (Vorg2VsaTranslation cfg d victim p) \<noteq> LSA_NONE cfg \<and>
    logicalSlice s (virtualSlice s (Vorg2VsaTranslation cfg d victim p)) =
      Vorg2VsaTranslation cfg d victim p")
  case True
  with gc_page_effect[of s cfg d victim p] show ?thesis by blast
next
  case False
  with gc_page_effect[of s cfg d victim p] show ?thesis by simp
qed

lemma fold_gc_page_chunks:
  "\<exists>chunks. events (fold (gc_page cfg d victim) ps s) = events s @ concat chunks \<and>
     (\<forall>c \<in> set chunks. \<exists>v L t1 e1 t2 e2 dst. c = copy_chunk d victim v L t1 e1 t2 e2 dst)"
proof (induction ps arbitrary: s)
  case Nil
  have "events (fold (gc_page cfg d victim) [] s) = events s @ concat [] \<and>
     (\<forall>c \<in> set []. \<exists>v L t1 e1 t2 e2 dst. c = copy_chunk d victim v L t1 e1 t2 e2 dst)" by simp
  then show ?case by blast
next
  case (Cons p ps)
  let ?s1 = "gc_page cfg d victim p s"
  from Cons.IH[of ?s1] obtain chunks where ch:
    "events (fold (gc_page cfg d victim) ps ?s1) = events ?s1 @ concat chunks"
    "\<forall>c \<in> set chunks. \<exists>v L t1 e1 t2 e2 dst. c = copy_chunk d victim v L t1 e1 t2 e2 dst"
    by blast
  from gc_page_chunk[of cfg d victim p s] show ?case
  proof
    assume "events ?s1 = events s"
    with ch have "events (fold (gc_page cfg d victim) (p # ps) s) = events s @ concat chunks \<and>
      (\<forall>c \<in> set chunks. \<exists>v L t1 e1 t2 e2 dst. c = copy_chunk d victim v L t1 e1 t2 e2 dst)"
      by simp
    then show ?thesis by blast
  next
    assume "\<exists>v L t1 e1 t2 e2 dst. events ?s1 = events s @ copy_chunk d victim v L t1 e1 t2 e2 dst"
    then obtain v L t1 e1 t2 e2 dst where
      c: "events ?s1 = events s @ copy_chunk d victim v L t1 e1 t2 e2 dst" by blast
    let ?c = "copy_chunk d victim v L t1 e1 t2 e2 dst"
    have "events (fold (gc_page cfg d victim) (p # ps) s) = events s @ concat (?c # chunks)"
      using ch(1) c by simp
    moreover have "\<forall>c \<in> set (?c # chunks). \<exists>v L t1 e1 t2 e2 dst. c = copy_chunk d victim v L t1 e1 t2 e2 dst"
    proof -
      have "\<exists>va La t1a e1a t2a e2a dsta. ?c = copy_chunk d victim va La t1a e1a t2a e2a dsta"
        by blast
      with ch(2) show ?thesis by simp
    qed
    ultimately show ?thesis by blast
  qed
qed

lemma gc_migrate_trace:
  "\<exists>chunks. events (gc_migrate cfg s d victim) = events s @ concat chunks @ [Ev_EraseBlock d victim] \<and>
     (\<forall>c \<in> set chunks. \<exists>v L t1 e1 t2 e2 dst. c = copy_chunk d victim v L t1 e1 t2 e2 dst)"
proof (cases "invalidSliceCnt (block s d victim) \<noteq> SLICES_PER_BLOCK cfg")
  case True
  from fold_gc_page_chunks[of cfg d victim "gc_pages cfg" s] obtain chunks where ch:
    "events (fold (gc_page cfg d victim) (gc_pages cfg) s) = events s @ concat chunks"
    "\<forall>c \<in> set chunks. \<exists>v L t1 e1 t2 e2 dst. c = copy_chunk d victim v L t1 e1 t2 e2 dst"
    by blast
  have "events (gc_migrate cfg s d victim) = events s @ concat chunks @ [Ev_EraseBlock d victim]"
    using True ch(1) by (simp add: gc_migrate_def call_EraseBlock_def)
  with ch(2) show ?thesis by blast
next
  case False
  then have "events (gc_migrate cfg s d victim) = events s @ concat [] @ [Ev_EraseBlock d victim]"
    by (simp add: gc_migrate_def call_EraseBlock_def)
  moreover have "\<forall>c \<in> set []. \<exists>v L t1 e1 t2 e2 dst. c = copy_chunk d victim v L t1 e1 t2 e2 dst"
    by simp
  ultimately show ?thesis by blast
qed

lemma events_setters:
  "events (set_prevBlock s d b v) = events s"
  "events (set_nextBlock s d b v) = events s"
  "events (set_headBlock s d k v) = events s"
  "events (set_tailBlock s d k v) = events s"
  by (simp_all add: set_prevBlock_def set_nextBlock_def set_headBlock_def set_tailBlock_def)

lemma events_SelectiveGet: "events (SelectiveGetFromGcVictimList cfg s d b) = events s"
  by (simp add: SelectiveGetFromGcVictimList_def Let_def events_setters)

lemma events_Detach: "events (DetachBlockFromGcList cfg s d b) = events s"
  by (simp add: DetachBlockFromGcList_def Let_def events_setters events_SelectiveGet)

lemma greedy_loop_result_events:
  "GetFromGcVictimList_greedy_loop cfg s d n = Inr (v, s') \<Longrightarrow> events s' = events s"
  by (induction n) (auto simp: Let_def events_setters split: if_splits)

lemma GarbageCollection_trace:
  assumes "GarbageCollection_greedy cfg s d = Inr s' \<or>
           GarbageCollection_cb cfg s d = Some (Inr s') \<or>
           GarbageCollection_cat cfg s d = Some (Inr s')"
  shows "\<exists>victim chunks.
           events s' = events s @ concat chunks @ [Ev_EraseBlock d victim] \<and>
           (\<forall>c \<in> set chunks. \<exists>v L t1 e1 t2 e2 dst. c = copy_chunk d victim v L t1 e1 t2 e2 dst)"
proof -
  have "\<exists>victim s1. events s1 = events s \<and> events s' = events (gc_migrate cfg s1 d victim)"
    using assms
  proof (elim disjE)
    assume "GarbageCollection_greedy cfg s d = Inr s'"
    then obtain victim s1 where g: "GetFromGcVictimList_greedy cfg s d = Inr (victim, s1)"
      "s' = gc_migrate cfg s1 d victim"
      by (auto simp: GarbageCollection_greedy_def split: sum.splits prod.splits)
    have "events s1 = events s"
      using g(1) greedy_loop_result_events unfolding GetFromGcVictimList_greedy_def by blast
    with g(2) show ?thesis by blast
  next
    assume "GarbageCollection_cb cfg s d = Some (Inr s')"
    then obtain victim s1 where g: "GetFromGcVictimList_cb cfg s d = Some (Inr (victim, s1))"
      "events s' = events (gc_migrate cfg s1 d victim)"
      by (auto simp: GarbageCollection_cb_def Let_def split: option.splits sum.splits prod.splits)
    have "s1 = DetachBlockFromGcList cfg s d victim"
      using g(1) scored_result_state unfolding GetFromGcVictimList_cb_def by blast
    then have "events s1 = events s" by (simp add: events_Detach)
    with g(2) show ?thesis by blast
  next
    assume "GarbageCollection_cat cfg s d = Some (Inr s')"
    then obtain victim s1 where g: "GetFromGcVictimList_cat cfg s d = Some (Inr (victim, s1))"
      "events s' = events (gc_migrate cfg s1 d victim)"
      by (auto simp: GarbageCollection_cat_def Let_def split: option.splits sum.splits prod.splits)
    have "s1 = DetachBlockFromGcList cfg s d victim"
      using g(1) scored_result_state unfolding GetFromGcVictimList_cat_def by blast
    then have "events s1 = events s" by (simp add: events_Detach)
    with g(2) show ?thesis by blast
  qed
  then obtain victim s1 where a: "events s1 = events s" "events s' = events (gc_migrate cfg s1 d victim)"
    by blast
  from gc_migrate_trace[of cfg s1 d victim] a show ?thesis by auto
qed

lemma gc_pages4: "gc_pages cfg4 = [0, 1, 2, 3]"
  by code_simp

lemma gc_greedy_sel:
  "GetFromGcVictimList_greedy cfg4 gc_state 0 = Inr (1, SelectiveGetFromGcVictimList cfg4 gc_state 0 1)"
  by code_simp

lemma maps_setters:
  "virtualSlice (set_prevBlock s d b v) = virtualSlice s"
  "virtualSlice (set_nextBlock s d b v) = virtualSlice s"
  "virtualSlice (set_headBlock s d k v) = virtualSlice s"
  "virtualSlice (set_tailBlock s d k v) = virtualSlice s"
  "logicalSlice (set_prevBlock s d b v) = logicalSlice s"
  "logicalSlice (set_nextBlock s d b v) = logicalSlice s"
  "logicalSlice (set_headBlock s d k v) = logicalSlice s"
  "logicalSlice (set_tailBlock s d k v) = logicalSlice s"
  by (simp_all add: set_prevBlock_def set_nextBlock_def set_headBlock_def set_tailBlock_def)

lemma maps_SelectiveGet:
  "virtualSlice (SelectiveGetFromGcVictimList cfg s d b) = virtualSlice s"
  "logicalSlice (SelectiveGetFromGcVictimList cfg s d b) = logicalSlice s"
  by (simp_all add: SelectiveGetFromGcVictimList_def Let_def maps_setters)

lemma gc_page_live_run:
  assumes "virtualSlice s 6 = 7" and "logicalSlice s 7 = 6" and "events s = []"
  shows "events (gc_page cfg4 0 1 2 s) = copy_chunk 0 1 6 7 0 1 4 5 1007"
    and "virtualSlice (gc_page cfg4 0 1 2 s) = (virtualSlice s)(1007 := 7)"
    and "logicalSlice (gc_page cfg4 0 1 2 s) = (logicalSlice s)(7 := 1007)"
  using assms
  by (simp_all add: gc_page_def gc4 sel4 Let_def
        gc_submit_read_def gc_submit_write_def call_GetFromFreeReqQ_def fill_request_def
        call_AllocateTempDataBuf_def set_dataBufInfo_entry_def
        call_UpdateTempDataBufEntryInfoBlockingReq_def set_nandInfo_virtualSliceAddr_def
        call_FindFreeVirtualSliceForGc_def store_logicalSlice_def store_virtualSlice_def
        call_SelectLowLevelReqQ_def gc_request_full copy_chunk_def)

lemma gc_page_skip:
  "virtualSlice s (Vorg2VsaTranslation cfg d victim p) = LSA_NONE cfg \<or>
   logicalSlice s (virtualSlice s (Vorg2VsaTranslation cfg d victim p)) \<noteq>
     Vorg2VsaTranslation cfg d victim p \<Longrightarrow>
   gc_page cfg d victim p s = s"
  by (auto simp: gc_page_def Let_def)

lemma gc_greedy_run:
  "trace_of (GarbageCollection_greedy cfg4 gc_state 0) =
     Some (copy_chunk 0 1 6 7 0 1 4 5 1007 @ [Ev_EraseBlock 0 1])"
proof -
  let ?s1 = "SelectiveGetFromGcVictimList cfg4 gc_state 0 1"
  have m: "virtualSlice ?s1 = virtualSlice gc_state" "logicalSlice ?s1 = logicalSlice gc_state"
    "events ?s1 = []"
    by (simp_all add: maps_SelectiveGet events_SelectiveGet gc_state_maps)
  have c: "invalidSliceCnt (block ?s1 0 1) \<noteq> SLICES_PER_BLOCK cfg4" by code_simp
  have p0: "gc_page cfg4 0 1 0 ?s1 = ?s1" by (rule gc_page_skip) (simp add: gc4 m gc_state_maps sel4)
  have p1: "gc_page cfg4 0 1 1 ?s1 = ?s1" by (rule gc_page_skip) (simp add: gc4 m gc_state_maps sel4)
  let ?s2 = "gc_page cfg4 0 1 2 ?s1"
  have l: "virtualSlice ?s1 6 = 7" "logicalSlice ?s1 7 = 6" by (simp_all add: m gc_state_maps)
  have e2: "events ?s2 = copy_chunk 0 1 6 7 0 1 4 5 1007"
    using l m(3) by (rule gc_page_live_run(1))
  have v2: "virtualSlice ?s2 7 = 0xFFFFFFFF"
    unfolding gc_page_live_run(2)[OF l m(3)] by (simp add: m gc_state_maps)
  have p3: "gc_page cfg4 0 1 3 ?s2 = ?s2" by (rule gc_page_skip) (simp add: gc4 v2 sel4)
  show ?thesis
    by (simp add: GarbageCollection_greedy_def gc_greedy_sel gc_migrate_def c gc_pages4
          p0 p1 p3 e2 call_EraseBlock_def trace_of_def)
qed







subsection \<open>When the selection stops at the assertion\<close>

lemma scan_order_empty:
  assumes "\<forall>k. 0 < k \<and> k \<le> SLICES_PER_BLOCK cfg \<longrightarrow> bl k = []"
  shows "scan_order cfg bl = []"
proof -
  have "set (scan_order cfg bl) = {}" unfolding set_scan_order using assms by auto
  then show ?thesis by simp
qed

lemma selection_asserts_when_empty:
  assumes wf: "index_wf cfg s d bl"
    and empty: "\<forall>k. 0 < k \<and> k \<le> SLICES_PER_BLOCK cfg \<longrightarrow> bl k = []"
  shows "GetFromGcVictimList_greedy cfg s d = Inl AssertionFailure \<and>
         GetFromGcVictimList_cb cfg s d = Some (Inl AssertionFailure) \<and>
         GetFromGcVictimList_cat cfg s d = Some (Inl AssertionFailure)"
proof (intro conjI)
  have so: "scan_order cfg bl = []" using empty by (rule scan_order_empty)
  show "GetFromGcVictimList_cb cfg s d = Some (Inl AssertionFailure)"
    using scored_spec[OF wf, of "CalculateCostBenefitScore cfg s d"]
    unfolding GetFromGcVictimList_cb_def so by auto
  show "GetFromGcVictimList_cat cfg s d = Some (Inl AssertionFailure)"
    using scored_spec[OF wf, of "CalculateCatScore cfg s d"]
    unfolding GetFromGcVictimList_cat_def so by auto
  have "\<And>i. 0 < i \<and> i \<le> unat (SLICES_PER_BLOCK cfg) \<Longrightarrow> bl (of_nat i) = []"
  proof -
    fix i assume i: "0 < i \<and> i \<le> unat (SLICES_PER_BLOCK cfg)"
    then have "i \<le> unat (SLICES_PER_BLOCK cfg)" by simp
    then have u: "unat (of_nat i :: u32) = i" by (rule le_unat_uoi)
    have "0 < (of_nat i :: u32) \<and> (of_nat i :: u32) \<le> SLICES_PER_BLOCK cfg"
      using i u by (simp add: word_less_nat_alt word_le_nat_alt)
    with empty show "bl (of_nat i) = []" by blast
  qed
  then show "GetFromGcVictimList_greedy cfg s d = Inl AssertionFailure"
    using greedy_loop_spec[OF wf, of "unat (SLICES_PER_BLOCK cfg)"]
    unfolding GetFromGcVictimList_greedy_def by auto
qed

lemma greedy_returns_when_nonempty:
  assumes wf: "index_wf cfg s d bl"
    and ne: "\<exists>k. 0 < k \<and> k \<le> SLICES_PER_BLOCK cfg \<and> bl k \<noteq> []"
  shows "\<exists>v s'. GetFromGcVictimList_greedy cfg s d = Inr (v, s')"
proof -
  from ne obtain k where k: "0 < k" "k \<le> SLICES_PER_BLOCK cfg" "bl k \<noteq> []" by blast
  have "0 < unat k \<and> unat k \<le> unat (SLICES_PER_BLOCK cfg) \<and> bl (of_nat (unat k)) \<noteq> []"
    using k by (simp add: word_less_nat_alt word_le_nat_alt)
  then have "\<not> (\<forall>i. 0 < i \<and> i \<le> unat (SLICES_PER_BLOCK cfg) \<longrightarrow> bl (of_nat i) = [])"
    by blast
  then show ?thesis
    using greedy_loop_spec[OF wf, of "unat (SLICES_PER_BLOCK cfg)"]
    unfolding GetFromGcVictimList_greedy_def by blast
qed

lemma scored_asserts_iff:
  assumes wf: "index_wf cfg s d bl"
  shows "(GetFromGcVictimList_scored cfg score s d = Some (Inl AssertionFailure)) =
         (\<forall>x \<in> set (scan_order cfg bl). score x = 0)"
proof
  assume "GetFromGcVictimList_scored cfg score s d = Some (Inl AssertionFailure)"
  with scored_spec[OF wf, of score] show "\<forall>x \<in> set (scan_order cfg bl). score x = 0" by auto
next
  assume z: "\<forall>x \<in> set (scan_order cfg bl). score x = 0"
  from scored_spec[OF wf, of score] show "GetFromGcVictimList_scored cfg score s d = Some (Inl AssertionFailure)"
  proof
    assume "GetFromGcVictimList_scored cfg score s d = Some (Inl AssertionFailure) \<and>
            (\<forall>x \<in> set (scan_order cfg bl). score x = 0)"
    then show ?thesis by simp
  next
    assume "\<exists>pre b post. scan_order cfg bl = pre @ b # post \<and> 0 < score b \<and>
            (\<forall>y \<in> set pre. score y < score b) \<and> (\<forall>y \<in> set post. score y \<le> score b) \<and>
            GetFromGcVictimList_scored cfg score s d =
              Some (Inr (b, DetachBlockFromGcList cfg s d b))"
    then obtain pre b post where b: "scan_order cfg bl = pre @ b # post" "0 < score b" by blast
    then have "b \<in> set (scan_order cfg bl)" by simp
    with z have "score b = 0" by blast
    with b(2) show ?thesis by simp
  qed
qed

subsection \<open>Well-formedness spelled out\<close>

lemma dseg_last_next:
  "dseg m p xs q \<Longrightarrow> xs \<noteq> [] \<Longrightarrow> nextBlock (m (last xs)) = q"
proof (induction xs arbitrary: p)
  case Nil then show ?case by simp
next
  case (Cons x xs)
  show ?case
  proof (cases xs)
    case Nil
    with Cons.prems show ?thesis by (simp add: first_or_def)
  next
    case (Cons y ys)
    have "dseg m x xs q" using Cons.prems(1) by simp
    moreover have "xs \<noteq> []" using Cons by simp
    ultimately have "nextBlock (m (last xs)) = q" by (rule Cons.IH)
    then show ?thesis using Cons by simp
  qed
qed

lemma index_wf_facts:
  assumes wf: "index_wf cfg s d bl" and k: "k \<le> SLICES_PER_BLOCK cfg"
  shows "(headBlock (gcVictimList s d k) = BLOCK_NONE cfg) = (tailBlock (gcVictimList s d k) = BLOCK_NONE cfg)"
    and "\<forall>x \<in> set (bl k). invalidSliceCnt (block s d x) = k"
    and "bl k \<noteq> [] \<longrightarrow> headBlock (gcVictimList s d k) = hd (bl k) \<and>
                         tailBlock (gcVictimList s d k) = last (bl k) \<and>
                         prevBlock (block s d (hd (bl k))) = BLOCK_NONE cfg \<and>
                         nextBlock (block s d (last (bl k))) = BLOCK_NONE cfg"
    and "\<forall>j \<le> SLICES_PER_BLOCK cfg. j \<noteq> k \<longrightarrow> set (bl j) \<inter> set (bl k) = {}"
proof -
  have ok: "bucket_ok cfg (block s d) (gcVictimList s d k) k (bl k)" using wf k by (rule index_wf_bucket)
  show "(headBlock (gcVictimList s d k) = BLOCK_NONE cfg) = (tailBlock (gcVictimList s d k) = BLOCK_NONE cfg)"
    using bucket_ok_head_NONE[OF ok] bucket_ok_tail_NONE[OF ok] by simp
  show "\<forall>x \<in> set (bl k). invalidSliceCnt (block s d x) = k" using ok by (simp add: bucket_ok_def)
  show "bl k \<noteq> [] \<longrightarrow> headBlock (gcVictimList s d k) = hd (bl k) \<and>
                         tailBlock (gcVictimList s d k) = last (bl k) \<and>
                         prevBlock (block s d (hd (bl k))) = BLOCK_NONE cfg \<and>
                         nextBlock (block s d (last (bl k))) = BLOCK_NONE cfg"
  proof
    assume ne: "bl k \<noteq> []"
    then obtain x xs where x: "bl k = x # xs" by (cases "bl k") auto
    have d: "dseg (block s d) (BLOCK_NONE cfg) (bl k) (BLOCK_NONE cfg)" using ok by (simp add: bucket_ok_def)
    have "nextBlock (block s d (last (bl k))) = BLOCK_NONE cfg" using d ne by (rule dseg_last_next)
    moreover have "prevBlock (block s d (hd (bl k))) = BLOCK_NONE cfg" using d x by simp
    moreover have "headBlock (gcVictimList s d k) = hd (bl k)" using ok x by (simp add: bucket_ok_def first_or_def)
    moreover have "tailBlock (gcVictimList s d k) = last (bl k)" using ok ne by (simp add: bucket_ok_def last_or_def)
    ultimately show "headBlock (gcVictimList s d k) = hd (bl k) \<and>
                         tailBlock (gcVictimList s d k) = last (bl k) \<and>
                         prevBlock (block s d (hd (bl k))) = BLOCK_NONE cfg \<and>
                         nextBlock (block s d (last (bl k))) = BLOCK_NONE cfg" by simp
  qed
  show "\<forall>j \<le> SLICES_PER_BLOCK cfg. j \<noteq> k \<longrightarrow> set (bl j) \<inter> set (bl k) = {}"
    using wf k unfolding index_wf_word by blast
qed

section \<open>Claims\<close>

text \<open>
  C2. Well-formedness of the victim index is preserved by every operation:
  \<^verbatim>\<open>PutToGcVictimList\<close> (all three files) of a block that is in no list, with the
  count argument equal to the block's invalid-slice count, appends the block to
  its bucket; \<^verbatim>\<open>SelectiveGetFromGcVictimList\<close> of a member removes it from its
  bucket; \<^verbatim>\<open>GetFromGcVictimList\<close> (all three files), when it returns a block,
  returns a member of a bucket 1 .. S and removes it. In each case the index is
  well formed for the new contents: counts equal bucket numbers, the lists are
  doubly linked from head to tail, and no block is in two buckets.
\<close>

theorem index_wf_preserved:
  assumes wf: "index_wf cfg s d bl"
  shows "(cnt \<le> SLICES_PER_BLOCK cfg \<and> valid_block cfg b \<and>
          (\<forall>k \<le> SLICES_PER_BLOCK cfg. b \<notin> set (bl k)) \<and> invalidSliceCnt (block s d b) = cnt \<longrightarrow>
            index_wf cfg (PutToGcVictimList_greedy cfg s d b cnt) d (bl(cnt := bl cnt @ [b])) \<and>
            index_wf cfg (PutToGcVictimList_cb cfg s d b cnt) d (bl(cnt := bl cnt @ [b])) \<and>
            index_wf cfg (PutToGcVictimList_cat cfg s d b cnt) d (bl(cnt := bl cnt @ [b]))) \<and>
         (k \<le> SLICES_PER_BLOCK cfg \<and> m \<in> set (bl k) \<longrightarrow>
            index_wf cfg (SelectiveGetFromGcVictimList cfg s d m) d (bl(k := remove1 m (bl k)))) \<and>
         (\<forall>v s'. GetFromGcVictimList_greedy cfg s d = Inr (v, s') \<or>
                  GetFromGcVictimList_cb cfg s d = Some (Inr (v, s')) \<or>
                  GetFromGcVictimList_cat cfg s d = Some (Inr (v, s')) \<longrightarrow>
            (\<exists>j. 0 < j \<and> j \<le> SLICES_PER_BLOCK cfg \<and> v \<in> set (bl j) \<and>
                 index_wf cfg s' d (bl(j := remove1 v (bl j)))))"
proof (intro conjI impI allI)
  assume a: "cnt \<le> SLICES_PER_BLOCK cfg \<and> valid_block cfg b \<and>
          (\<forall>k \<le> SLICES_PER_BLOCK cfg. b \<notin> set (bl k)) \<and> invalidSliceCnt (block s d b) = cnt"
  show "index_wf cfg (PutToGcVictimList_greedy cfg s d b cnt) d (bl(cnt := bl cnt @ [b]))"
    using wf a by (intro Put_greedy_wf) simp_all
  show "index_wf cfg (PutToGcVictimList_cb cfg s d b cnt) d (bl(cnt := bl cnt @ [b]))"
    using wf a by (intro Put_cb_wf) simp_all
  show "index_wf cfg (PutToGcVictimList_cat cfg s d b cnt) d (bl(cnt := bl cnt @ [b]))"
    using wf a by (intro Put_cat_wf) simp_all
next
  assume "k \<le> SLICES_PER_BLOCK cfg \<and> m \<in> set (bl k)"
  then show "index_wf cfg (SelectiveGetFromGcVictimList cfg s d m) d (bl(k := remove1 m (bl k)))"
    using wf by (intro SelectiveGet_wf) simp_all
next
  fix v s'
  assume g: "GetFromGcVictimList_greedy cfg s d = Inr (v, s') \<or>
             GetFromGcVictimList_cb cfg s d = Some (Inr (v, s')) \<or>
             GetFromGcVictimList_cat cfg s d = Some (Inr (v, s'))"
  then show "\<exists>j. 0 < j \<and> j \<le> SLICES_PER_BLOCK cfg \<and> v \<in> set (bl j) \<and>
                 index_wf cfg s' d (bl(j := remove1 v (bl j)))"
  proof (elim disjE)
    assume "GetFromGcVictimList_greedy cfg s d = Inr (v, s')"
    from Get_greedy_wf[OF wf this] show ?thesis by (metis hd_in_set)
  next
    assume "GetFromGcVictimList_cb cfg s d = Some (Inr (v, s'))"
    then have "GetFromGcVictimList_scored cfg (CalculateCostBenefitScore cfg s d) s d = Some (Inr (v, s'))"
      by (simp add: GetFromGcVictimList_cb_def)
    from Get_scored_wf[OF wf this] show ?thesis by blast
  next
    assume "GetFromGcVictimList_cat cfg s d = Some (Inr (v, s'))"
    then have "GetFromGcVictimList_scored cfg (CalculateCatScore cfg s d) s d = Some (Inr (v, s'))"
      by (simp add: GetFromGcVictimList_cat_def)
    from Get_scored_wf[OF wf this] show ?thesis by blast
  qed
qed

text \<open>
  C2 on the example state.
\<close>

theorem index_wf_preserved_witness:
  "index_wf cfg4 ex_state 0 ex_bl \<and>
   index_wf cfg4 (PutToGcVictimList_greedy cfg4 ex_state 0 5 2) 0 (ex_bl(2 := ex_bl 2 @ [5])) \<and>
   index_wf cfg4 (PutToGcVictimList_cb cfg4 ex_state 0 5 2) 0 (ex_bl(2 := ex_bl 2 @ [5])) \<and>
   index_wf cfg4 (PutToGcVictimList_cat cfg4 ex_state 0 5 2) 0 (ex_bl(2 := ex_bl 2 @ [5])) \<and>
   index_wf cfg4 (SelectiveGetFromGcVictimList cfg4 ex_state 0 1) 0 (ex_bl(3 := remove1 1 (ex_bl 3))) \<and>
   GetFromGcVictimList_greedy cfg4 ex_state 0 = Inr (1, SelectiveGetFromGcVictimList cfg4 ex_state 0 1)"
proof -
  have h: "index_wf cfg4 ex_state 0 ex_bl" by code_simp
  have p: "(2::u32) \<le> SLICES_PER_BLOCK cfg4 \<and> valid_block cfg4 5 \<and>
          (\<forall>k \<le> SLICES_PER_BLOCK cfg4. 5 \<notin> set (ex_bl k)) \<and>
          invalidSliceCnt (block ex_state 0 5) = 2"
    by (simp add: sel4 valid_block_def ex_bl_def ex_state_def)
  have q: "(3::u32) \<le> SLICES_PER_BLOCK cfg4 \<and> 1 \<in> set (ex_bl 3)"
    by (simp add: sel4 ex_bl_def)
  have g: "GetFromGcVictimList_greedy cfg4 ex_state 0 = Inr (1, SelectiveGetFromGcVictimList cfg4 ex_state 0 1)"
    by code_simp
  show ?thesis
    using h p q g index_wf_preserved[OF h, of 2 5 3 1] by blast
qed

text \<open>
  C1. \<^verbatim>\<open>GetFromGcVictimList\<close> is claimed to halt by the assertion exactly when all
  buckets 1 .. S of the die are empty. The CAT file does not: the scan starts with
  \<^verbatim>\<open>bestScore = 0\<close> and replaces the best block only on \<^verbatim>\<open>score > bestScore\<close>,
  so a die all of whose candidates score 0 reaches the assertion. Here the die holds
  block 1 in bucket 1 (one invalid slice of four, age 0, never erased; the index is
  well formed by \<open>c1_wf\<close>), the score of the block is \<open>(2 * 1) div (4 * 1) = 0\<close>, and the
  selection stops at the assertion. What does hold: all three files stop at the
  assertion when the buckets 1 .. S are empty (\<open>selection_asserts_when_empty\<close>),
  the Greedy file returns a block otherwise (\<open>greedy_returns_when_nonempty\<close>), and
  the two scoring files stop exactly when every candidate scores 0
  (\<open>scored_asserts_iff\<close>).
\<close>

theorem cat_asserts_with_candidate:
  "headBlock (gcVictimList c1_state 0 1) = 1 \<and>
   invalidSliceCnt (block c1_state 0 1) = 1 \<and>
   CalculateCatScore cfg4 c1_state 0 1 = 0 \<and>
   GetFromGcVictimList_cat cfg4 c1_state 0 = Some (Inl AssertionFailure)"
proof -
  have "GetFromGcVictimList_cat cfg4 c1_state 0 = Some (Inl AssertionFailure)"
    by (simp add: GetFromGcVictimList_cat_def GetFromGcVictimList_scored_def c1_state_def
        sel4 scan_buckets_numeral boot_state_def blank_entry_def scan_list.simps
        CalculateCatScore_def Let_def)
  moreover have "CalculateCatScore cfg4 c1_state 0 1 = 0"
    by (simp add: CalculateCatScore_def c1_state_def sel4 boot_state_def Let_def)
  moreover have "headBlock (gcVictimList c1_state 0 1) = 1" "invalidSliceCnt (block c1_state 0 1) = 1"
    by (simp_all add: c1_state_def)
  ultimately show ?thesis by simp
qed

text \<open>
  C7, as stated, fails where the clock wraps: at tick \<open>2^32 - 1\<close> a
  \<^verbatim>\<open>PutToGcVictimList\<close> with a count that is not zero takes the clock to 0, which
  is a decrease.
\<close>

theorem tick_wraps_counterexample:
  "gcActivityTick (PutToGcVictimList_cb cfg4 wrap_state 0 1 1) < gcActivityTick wrap_state"
  by (simp add: PutToGcVictimList_cb_def tick_Put_greedy wrap_state_def)

text \<open>
  C7, amended. The clock is an \<^verbatim>\<open>unsigned int\<close>: a \<^verbatim>\<open>PutToGcVictimList\<close> of the
  Cost-Benefit or CAT file with a count that is not zero adds 1 modulo \<open>2^32\<close>
  (exactly 1 unless the clock is \<open>2^32 - 1\<close>); with count 0 it leaves the clock
  alone, and so do the Greedy \<^verbatim>\<open>PutToGcVictimList\<close>,
  \<^verbatim>\<open>SelectiveGetFromGcVictimList\<close>, \<^verbatim>\<open>DetachBlockFromGcList\<close> and every
  \<^verbatim>\<open>GetFromGcVictimList\<close> that returns a block.
\<close>

theorem tick_step:
  "(cnt \<noteq> 0 \<longrightarrow>
      gcActivityTick (PutToGcVictimList_cb cfg s d b cnt) = gcActivityTick s + 1 \<and>
      gcActivityTick (PutToGcVictimList_cat cfg s d b cnt) = gcActivityTick s + 1 \<and>
      unat (gcActivityTick s + 1) = (unat (gcActivityTick s) + 1) mod 2 ^ 32 \<and>
      (gcActivityTick s \<noteq> 0xFFFFFFFF \<longrightarrow> unat (gcActivityTick s + 1) = unat (gcActivityTick s) + 1)) \<and>
   (cnt = 0 \<longrightarrow>
      gcActivityTick (PutToGcVictimList_cb cfg s d b cnt) = gcActivityTick s \<and>
      gcActivityTick (PutToGcVictimList_cat cfg s d b cnt) = gcActivityTick s) \<and>
   gcActivityTick (PutToGcVictimList_greedy cfg s d b cnt) = gcActivityTick s \<and>
   gcActivityTick (SelectiveGetFromGcVictimList cfg s d b) = gcActivityTick s \<and>
   gcActivityTick (DetachBlockFromGcList cfg s d b) = gcActivityTick s \<and>
   (\<forall>v s'. GetFromGcVictimList_greedy cfg s d = Inr (v, s') \<or>
            GetFromGcVictimList_cb cfg s d = Some (Inr (v, s')) \<or>
            GetFromGcVictimList_cat cfg s d = Some (Inr (v, s')) \<longrightarrow>
            gcActivityTick s' = gcActivityTick s)"
proof -
  have w: "unat (gcActivityTick s + 1) = (unat (gcActivityTick s) + 1) mod 2 ^ 32"
    by (simp add: unat_word_ariths)
  have n: "gcActivityTick s \<noteq> 0xFFFFFFFF \<Longrightarrow> unat (gcActivityTick s + 1) = unat (gcActivityTick s) + 1"
  proof -
    assume "gcActivityTick s \<noteq> 0xFFFFFFFF"
    then have "unat (gcActivityTick s) \<noteq> unat (0xFFFFFFFF :: u32)" by (auto simp: word_unat_eq_iff)
    moreover have "unat (gcActivityTick s) < 2 ^ 32" using unsigned_less[of "gcActivityTick s"] by simp
    ultimately have "unat (gcActivityTick s) + 1 < 2 ^ 32" by simp
    then show ?thesis using w by simp
  qed
  have g: "\<And>v s'. GetFromGcVictimList_greedy cfg s d = Inr (v, s') \<or>
            GetFromGcVictimList_cb cfg s d = Some (Inr (v, s')) \<or>
            GetFromGcVictimList_cat cfg s d = Some (Inr (v, s')) \<Longrightarrow>
            gcActivityTick s' = gcActivityTick s"
    unfolding GetFromGcVictimList_greedy_def GetFromGcVictimList_cb_def GetFromGcVictimList_cat_def
    using greedy_loop_result_tick scored_result_state tick_Detach by metis
  show ?thesis
    using w n g
    by (simp add: PutToGcVictimList_cb_def PutToGcVictimList_cat_def Let_def tick_Put_greedy
          tick_SelectiveGet tick_Detach)
qed

text \<open>
  The amended C7 on a concrete state with tick 0.
\<close>

theorem tick_step_witness:
  "gcActivityTick (PutToGcVictimList_cb cfg4 ex_state 0 5 2) = 1 \<and>
   gcActivityTick (PutToGcVictimList_cat cfg4 ex_state 0 5 2) = 1 \<and>
   gcActivityTick (PutToGcVictimList_cb cfg4 ex_state 0 5 0) = 0 \<and>
   gcActivityTick (SelectiveGetFromGcVictimList cfg4 ex_state 0 1) = 0"
proof -
  have t: "gcActivityTick ex_state = 0" by (simp add: ex_state_def boot_state_def)
  have a: "(2::u32) \<noteq> 0" by simp
  show ?thesis
    using tick_step[of 2 cfg4 ex_state 0 5] tick_step[of 0 cfg4 ex_state 0 5]
      tick_step[of 0 cfg4 ex_state 0 1] a t by simp
qed

text \<open>
  C8, as stated, fails for the public unlink operation
  \<^verbatim>\<open>SelectiveGetFromGcVictimList\<close>: block 1 is the head of bucket 3, and after
  the call its own \<^verbatim>\<open>nextBlock\<close> still names block 2.
\<close>

theorem selective_get_keeps_links_counterexample:
  "index_wf cfg4 ex_state 0 ex_bl \<and> 1 \<in> set (ex_bl 3) \<and>
   nextBlock (block (SelectiveGetFromGcVictimList cfg4 ex_state 0 1) 0 1) = 2 \<and>
   nextBlock (block (SelectiveGetFromGcVictimList cfg4 ex_state 0 1) 0 1) \<noteq> BLOCK_NONE cfg4"
proof -
  have "index_wf cfg4 ex_state 0 ex_bl" by code_simp
  moreover have "nextBlock (block (SelectiveGetFromGcVictimList cfg4 ex_state 0 1) 0 1) = 2"
    by code_simp
  ultimately show ?thesis by (simp add: ex_bl_def sel4)
qed

text \<open>
  C8, amended. After the static helper \<^verbatim>\<open>DetachBlockFromGcList\<close> of the
  Cost-Benefit and CAT files the block's own \<^verbatim>\<open>prevBlock\<close> and \<^verbatim>\<open>nextBlock\<close>
  are \<^verbatim>\<open>BLOCK_NONE\<close>; the public \<^verbatim>\<open>SelectiveGetFromGcVictimList\<close> leaves the
  entry of a list member it unlinks as it was.
\<close>

theorem detach_clears_links:
  "prevBlock (block (DetachBlockFromGcList cfg s d b) d b) = BLOCK_NONE cfg \<and>
   nextBlock (block (DetachBlockFromGcList cfg s d b) d b) = BLOCK_NONE cfg \<and>
   (index_wf cfg s d bl \<and> k \<le> SLICES_PER_BLOCK cfg \<and> b \<in> set (bl k) \<longrightarrow>
      block (SelectiveGetFromGcVictimList cfg s d b) d b = block s d b)"
proof (intro conjI impI)
  show "prevBlock (block (DetachBlockFromGcList cfg s d b) d b) = BLOCK_NONE cfg"
    by (simp add: DetachBlockFromGcList_def Let_def setter_simps)
  show "nextBlock (block (DetachBlockFromGcList cfg s d b) d b) = BLOCK_NONE cfg"
    by (simp add: DetachBlockFromGcList_def Let_def setter_simps)
  assume "index_wf cfg s d bl \<and> k \<le> SLICES_PER_BLOCK cfg \<and> b \<in> set (bl k)"
  then show "block (SelectiveGetFromGcVictimList cfg s d b) d b = block s d b"
    by (intro SelectiveGet_touches[of cfg s d bl k]) simp_all
qed

text \<open>
  The amended C8 on block 1 of the example state.
\<close>

theorem detach_clears_links_witness:
  "prevBlock (block (DetachBlockFromGcList cfg4 ex_state 0 1) 0 1) = BLOCK_NONE cfg4 \<and>
   nextBlock (block (DetachBlockFromGcList cfg4 ex_state 0 1) 0 1) = BLOCK_NONE cfg4 \<and>
   index_wf cfg4 ex_state 0 ex_bl \<and> (3::u32) \<le> SLICES_PER_BLOCK cfg4 \<and> 1 \<in> set (ex_bl 3) \<and>
   block (SelectiveGetFromGcVictimList cfg4 ex_state 0 1) 0 1 = block ex_state 0 1"
proof -
  have h: "index_wf cfg4 ex_state 0 ex_bl" by code_simp
  have q: "(3::u32) \<le> SLICES_PER_BLOCK cfg4 \<and> 1 \<in> set (ex_bl 3)" by (simp add: sel4 ex_bl_def)
  show ?thesis using detach_clears_links[of cfg4 ex_state 0 1 ex_bl 3] h q by blast
qed

text \<open>
  C10. When the Greedy \<^verbatim>\<open>GetFromGcVictimList\<close> returns block \<open>v\<close>, the block was
  the head of the highest bucket that is not empty; its \<^verbatim>\<open>nextBlock\<close> is what it
  was before the call, namely the new head of that bucket (or \<^verbatim>\<open>BLOCK_NONE\<close> if
  the bucket is now empty), and its \<^verbatim>\<open>prevBlock\<close> is \<^verbatim>\<open>BLOCK_NONE\<close>. As long as
  \<open>v\<close> is in no list, no operation of the Greedy file on other blocks writes the
  entry of \<open>v\<close>; a \<^verbatim>\<open>PutToGcVictimList\<close> of \<open>v\<close> itself sets its
  \<^verbatim>\<open>nextBlock\<close> to \<^verbatim>\<open>BLOCK_NONE\<close>.
\<close>

theorem greedy_pop_leaves_next:
  assumes wf: "index_wf cfg s d bl" and g: "GetFromGcVictimList_greedy cfg s d = Inr (v, s')"
  shows "nextBlock (block s' d v) = nextBlock (block s d v) \<and>
         prevBlock (block s' d v) = BLOCK_NONE cfg \<and>
         (\<exists>k. 0 < k \<and> k \<le> SLICES_PER_BLOCK cfg \<and> bl k \<noteq> [] \<and> v = hd (bl k) \<and>
              nextBlock (block s' d v) = first_or (tl (bl k)) (BLOCK_NONE cfg) \<and>
              index_wf cfg s' d (bl(k := tl (bl k)))) \<and>
         (\<forall>t bl'. index_wf cfg t d bl' \<and> (\<forall>k \<le> SLICES_PER_BLOCK cfg. v \<notin> set (bl' k)) \<longrightarrow>
            (\<forall>m k. k \<le> SLICES_PER_BLOCK cfg \<and> m \<in> set (bl' k) \<longrightarrow>
               block (SelectiveGetFromGcVictimList cfg t d m) d v = block t d v) \<and>
            (\<forall>m c. m \<noteq> v \<and> c \<le> SLICES_PER_BLOCK cfg \<longrightarrow>
               block (PutToGcVictimList_greedy cfg t d m c) d v = block t d v) \<and>
            (\<forall>w t'. GetFromGcVictimList_greedy cfg t d = Inr (w, t') \<longrightarrow>
               block t' d v = block t d v) \<and>
            (\<forall>c. c \<le> SLICES_PER_BLOCK cfg \<longrightarrow>
               nextBlock (block (PutToGcVictimList_greedy cfg t d v c) d v) = BLOCK_NONE cfg))"
proof -
  from Get_greedy_wf[OF wf g] obtain k where k: "0 < k" "k \<le> SLICES_PER_BLOCK cfg"
    "bl k \<noteq> []" "v = hd (bl k)" "s' = SelectiveGetFromGcVictimList cfg s d v"
    "index_wf cfg s' d (bl(k := remove1 v (bl k)))" by blast
  have mem: "v \<in> set (bl k)" using k(3,4) by simp
  have same: "block s' d v = block s d v"
    unfolding k(5) using wf k(2) mem by (rule SelectiveGet_touches) simp
  have ok: "bucket_ok cfg (block s d) (gcVictimList s d k) k (bl k)" using wf k(2) by (rule index_wf_bucket)
  obtain rest where r: "bl k = v # rest" using k(3,4) by (cases "bl k") auto
  have pv: "prevBlock (block s d v) = BLOCK_NONE cfg"
    and nx: "nextBlock (block s d v) = first_or rest (BLOCK_NONE cfg)"
    using ok r by (simp_all add: bucket_ok_def)
  have rm: "remove1 v (bl k) = tl (bl k)" using r by simp
  have part3: "\<exists>k. 0 < k \<and> k \<le> SLICES_PER_BLOCK cfg \<and> bl k \<noteq> [] \<and> v = hd (bl k) \<and>
              nextBlock (block s' d v) = first_or (tl (bl k)) (BLOCK_NONE cfg) \<and>
              index_wf cfg s' d (bl(k := tl (bl k)))"
  proof (intro exI[of _ k] conjI)
    show "0 < k" by (rule k(1))
    show "k \<le> SLICES_PER_BLOCK cfg" by (rule k(2))
    show "bl k \<noteq> []" by (rule k(3))
    show "v = hd (bl k)" by (rule k(4))
    have "first_or rest (BLOCK_NONE cfg) = first_or (tl (bl k)) (BLOCK_NONE cfg)" by (simp add: r)
    then show "nextBlock (block s' d v) = first_or (tl (bl k)) (BLOCK_NONE cfg)"
      using same nx by simp
    show "index_wf cfg s' d (bl(k := tl (bl k)))" using k(6) unfolding rm .
  qed
  have part5: "\<forall>t bl'. index_wf cfg t d bl' \<and> (\<forall>k \<le> SLICES_PER_BLOCK cfg. v \<notin> set (bl' k)) \<longrightarrow>
            (\<forall>m k. k \<le> SLICES_PER_BLOCK cfg \<and> m \<in> set (bl' k) \<longrightarrow>
               block (SelectiveGetFromGcVictimList cfg t d m) d v = block t d v) \<and>
            (\<forall>m c. m \<noteq> v \<and> c \<le> SLICES_PER_BLOCK cfg \<longrightarrow>
               block (PutToGcVictimList_greedy cfg t d m c) d v = block t d v) \<and>
            (\<forall>w t'. GetFromGcVictimList_greedy cfg t d = Inr (w, t') \<longrightarrow>
               block t' d v = block t d v) \<and>
            (\<forall>c. c \<le> SLICES_PER_BLOCK cfg \<longrightarrow>
               nextBlock (block (PutToGcVictimList_greedy cfg t d v c) d v) = BLOCK_NONE cfg)"
  proof (intro allI impI conjI)
    fix t bl' m k
    assume a: "index_wf cfg t d bl' \<and> (\<forall>k \<le> SLICES_PER_BLOCK cfg. v \<notin> set (bl' k))"
      and b: "k \<le> SLICES_PER_BLOCK cfg \<and> m \<in> set (bl' k)"
    show "block (SelectiveGetFromGcVictimList cfg t d m) d v = block t d v"
      using a b by (intro SelectiveGet_touches[of cfg t d bl' k]) simp_all
  next
    fix t bl' m c
    assume a: "index_wf cfg t d bl' \<and> (\<forall>k \<le> SLICES_PER_BLOCK cfg. v \<notin> set (bl' k))"
      and b: "m \<noteq> v \<and> c \<le> SLICES_PER_BLOCK cfg"
    show "block (PutToGcVictimList_greedy cfg t d m c) d v = block t d v"
      using a b by (intro Put_greedy_touches[of cfg t d bl' c]) auto
  next
    fix t bl' w t'
    assume a: "index_wf cfg t d bl' \<and> (\<forall>k \<le> SLICES_PER_BLOCK cfg. v \<notin> set (bl' k))"
      and b: "GetFromGcVictimList_greedy cfg t d = Inr (w, t')"
    from a have wf': "index_wf cfg t d bl'" by simp
    from Get_greedy_wf[OF wf' b] obtain j where j: "j \<le> SLICES_PER_BLOCK cfg"
      "bl' j \<noteq> []" "w = hd (bl' j)" "t' = SelectiveGetFromGcVictimList cfg t d w" by blast
    have "w \<in> set (bl' j)" using j(2,3) by simp
    then show "block t' d v = block t d v"
      unfolding j(4) using a j(1) by (intro SelectiveGet_touches[of cfg t d bl' j]) simp_all
  next
    fix t bl' c
    assume a: "index_wf cfg t d bl' \<and> (\<forall>k \<le> SLICES_PER_BLOCK cfg. v \<notin> set (bl' k))"
      and c: "c \<le> SLICES_PER_BLOCK cfg"
    from a have wf': "index_wf cfg t d bl'" by simp
    have ok': "bucket_ok cfg (block t d) (gcVictimList t d c) c (bl' c)" using wf' c by (rule index_wf_bucket)
    have "tailBlock (gcVictimList t d c) \<noteq> BLOCK_NONE cfg \<Longrightarrow> tailBlock (gcVictimList t d c) \<in> set (bl' c)"
      using bucket_ok_tail_NONE[OF ok'] ok' by (auto simp: bucket_ok_def last_or_def)
    then have "tailBlock (gcVictimList t d c) \<noteq> BLOCK_NONE cfg \<Longrightarrow> tailBlock (gcVictimList t d c) \<noteq> v"
      using a c by auto
    then show "nextBlock (block (PutToGcVictimList_greedy cfg t d v c) d v) = BLOCK_NONE cfg"
      by (cases "tailBlock (gcVictimList t d c) = BLOCK_NONE cfg") (simp_all add: Put_greedy_block Let_def)
  qed
  show ?thesis using same pv part3 part5 by simp
qed

text \<open>
  C10 on the example state: block 1 is popped and still points to block 2, the new
  head of bucket 3.
\<close>

theorem greedy_pop_leaves_next_witness:
  "index_wf cfg4 ex_state 0 ex_bl \<and>
   GetFromGcVictimList_greedy cfg4 ex_state 0 = Inr (1, SelectiveGetFromGcVictimList cfg4 ex_state 0 1) \<and>
   nextBlock (block (SelectiveGetFromGcVictimList cfg4 ex_state 0 1) 0 1) = nextBlock (block ex_state 0 1) \<and>
   nextBlock (block ex_state 0 1) = 2 \<and>
   headBlock (gcVictimList (SelectiveGetFromGcVictimList cfg4 ex_state 0 1) 0 3) = 2 \<and>
   prevBlock (block (SelectiveGetFromGcVictimList cfg4 ex_state 0 1) 0 1) = BLOCK_NONE cfg4"
proof -
  have h: "index_wf cfg4 ex_state 0 ex_bl" by code_simp
  have g: "GetFromGcVictimList_greedy cfg4 ex_state 0 = Inr (1, SelectiveGetFromGcVictimList cfg4 ex_state 0 1)"
    by code_simp
  have n: "nextBlock (block ex_state 0 1) = 2" by (simp add: ex_state_def)
  have hd: "headBlock (gcVictimList (SelectiveGetFromGcVictimList cfg4 ex_state 0 1) 0 3) = 2"
    by code_simp
  show ?thesis using greedy_pop_leaves_next[OF h g] h g n hd by simp
qed

text \<open>
  C4, as stated, fails at the edges of the 32-bit range, because the code adds
  the 1 to the age and to the wear in 32-bit arithmetic, before it widens them to
  64 bits. With \<open>P = 4\<close>, block 1 has \<open>I = 2\<close>, \<open>V = 2\<close>, \<open>W = 1\<close> and age
  \<open>A = 2^32 - 1\<close>: \<open>A + 1\<close> wraps to 0 and both functions return 0, where the
  formulas give \<open>2^35 div 3\<close>, narrowed to 2863311530, and \<open>(3 * 2^32) div 6 =
  2147483648\<close>. Block 2 has \<open>I = 2\<close>, \<open>V = 2\<close>, age 0 and wear \<open>W = 2^32 - 1\<close>:
  \<open>W + 1\<close> wraps to 0, the denominator is 0 and \<^verbatim>\<open>CalculateCatScore\<close> returns
  the numerator 3, where the formula gives \<open>3 div (3 * 2^32) = 0\<close>.
\<close>

theorem score_at_full_age_counterexample:
  "unat (invalidSliceCnt (block score_edge_state 0 1)) = 2 \<and>
   unat (USER_PAGES_PER_BLOCK cfg4) = 4 \<and>
   unat (eraseCnt (block score_edge_state 0 1)) = 1 \<and>
   (unat (gcActivityTick score_edge_state) + 2 ^ 32 - unat (gcLastEraseTick score_edge_state 0 1))
      mod 2 ^ 32 = 4294967295 \<and>
   (unat (gcActivityTick score_edge_state) + 2 ^ 32 - unat (gcLastInvalidTick score_edge_state 0 1))
      mod 2 ^ 32 = 4294967295 \<and>
   unat (CalculateCostBenefitScore cfg4 score_edge_state 0 1) = 0 \<and>
   cost_benefit_formula 2 2 4294967295 4 = 2863311530 \<and>
   unat (CalculateCatScore cfg4 score_edge_state 0 1) = 0 \<and>
   cat_formula 2 2 4294967295 1 = 2147483648 \<and>
   unat (invalidSliceCnt (block score_edge_state 0 2)) = 2 \<and>
   unat (eraseCnt (block score_edge_state 0 2)) = 4294967295 \<and>
   (unat (gcActivityTick score_edge_state) + 2 ^ 32 - unat (gcLastInvalidTick score_edge_state 0 2))
      mod 2 ^ 32 = 0 \<and>
   unat (CalculateCatScore cfg4 score_edge_state 0 2) = 3 \<and>
   cat_formula 2 2 0 4294967295 = 0"
proof -
  have a: "invalidSliceCnt (block score_edge_state 0 1) = 2"
    "eraseCnt (block score_edge_state 0 1) = 1"
    "gcActivityTick score_edge_state = 0xFFFFFFFF" "gcLastEraseTick score_edge_state 0 1 = 0"
    "gcLastInvalidTick score_edge_state 0 1 = 0"
    "invalidSliceCnt (block score_edge_state 0 2) = 2"
    "eraseCnt (block score_edge_state 0 2) = 0xFFFFFFFF"
    "gcLastInvalidTick score_edge_state 0 2 = 0xFFFFFFFF"
    by (simp_all add: score_edge_state_def boot_state_def)
  have f: "cost_benefit_formula 2 2 4294967295 4 = 2863311530"
    "cat_formula 2 2 4294967295 1 = 2147483648"
    "cat_formula 2 2 0 4294967295 = 0"
    by (simp_all add: cost_benefit_formula_def cat_formula_def Let_def del: One_nat_def)
  have c: "CalculateCostBenefitScore cfg4 score_edge_state 0 1 = 0"
    "CalculateCatScore cfg4 score_edge_state 0 1 = 0"
    "CalculateCatScore cfg4 score_edge_state 0 2 = 3"
    by (simp_all add: CalculateCostBenefitScore_def CalculateCatScore_def Let_def a sel4)
  have u: "unat (invalidSliceCnt (block score_edge_state 0 1)) = 2"
    "unat (USER_PAGES_PER_BLOCK cfg4) = 4" "unat (eraseCnt (block score_edge_state 0 1)) = 1"
    "unat (invalidSliceCnt (block score_edge_state 0 2)) = 2"
    "unat (eraseCnt (block score_edge_state 0 2)) = 4294967295"
    by (simp_all add: a sel4)
  have g: "(unat (gcActivityTick score_edge_state) + 2 ^ 32 -
              unat (gcLastEraseTick score_edge_state 0 1)) mod 2 ^ 32 = 4294967295"
    "(unat (gcActivityTick score_edge_state) + 2 ^ 32 -
              unat (gcLastInvalidTick score_edge_state 0 1)) mod 2 ^ 32 = 4294967295"
    "(unat (gcActivityTick score_edge_state) + 2 ^ 32 -
              unat (gcLastInvalidTick score_edge_state 0 2)) mod 2 ^ 32 = 0"
    by (simp_all add: a)
  have z: "unat (CalculateCostBenefitScore cfg4 score_edge_state 0 1) = 0"
    "unat (CalculateCatScore cfg4 score_edge_state 0 1) = 0"
    "unat (CalculateCatScore cfg4 score_edge_state 0 2) = 3"
    by (simp_all add: c)
  show ?thesis using u g z f by blast
qed

text \<open>
  C4, amended. For a block with \<open>I\<close> invalid slices, \<open>I \<le> P\<close>, and \<open>P < 2^32 - 1\<close>
  pages per block, with \<open>V = P - I\<close> and the age \<open>A\<close> the clock minus the block's
  time stamp modulo \<open>2^32\<close>: for every age below \<open>2^32 - 1\<close>,
  \<^verbatim>\<open>CalculateCostBenefitScore\<close> returns \<open>(I * (A+1) * P) div (V+1)\<close>, the product
  taken as a 64-bit unsigned value and the quotient narrowed to 32 bits, and 0
  when the product is 0; and for every age and every wear \<open>W\<close> below \<open>2^32 - 1\<close>,
  \<^verbatim>\<open>CalculateCatScore\<close> returns \<open>((I+1) * (A+1)) div ((V+1) * (W+1))\<close> with the
  same widths.
\<close>

theorem score_formulas:
  assumes "unat (invalidSliceCnt (block s d b)) \<le> unat (USER_PAGES_PER_BLOCK cfg)"
    and "unat (USER_PAGES_PER_BLOCK cfg) < 2 ^ 32 - 1"
  shows "((unat (gcActivityTick s) + 2 ^ 32 - unat (gcLastEraseTick s d b)) mod 2 ^ 32 < 2 ^ 32 - 1 \<longrightarrow>
          unat (CalculateCostBenefitScore cfg s d b) =
           cost_benefit_formula (unat (invalidSliceCnt (block s d b)))
             (unat (USER_PAGES_PER_BLOCK cfg) - unat (invalidSliceCnt (block s d b)))
             ((unat (gcActivityTick s) + 2 ^ 32 - unat (gcLastEraseTick s d b)) mod 2 ^ 32)
             (unat (USER_PAGES_PER_BLOCK cfg))) \<and>
         ((unat (gcActivityTick s) + 2 ^ 32 - unat (gcLastInvalidTick s d b)) mod 2 ^ 32 < 2 ^ 32 - 1 \<and>
          eraseCnt (block s d b) \<noteq> 0xFFFFFFFF \<longrightarrow>
          unat (CalculateCatScore cfg s d b) =
           cat_formula (unat (invalidSliceCnt (block s d b)))
             (unat (USER_PAGES_PER_BLOCK cfg) - unat (invalidSliceCnt (block s d b)))
             ((unat (gcActivityTick s) + 2 ^ 32 - unat (gcLastInvalidTick s d b)) mod 2 ^ 32)
             (unat (eraseCnt (block s d b))))"
proof (intro conjI impI)
  assume "(unat (gcActivityTick s) + 2 ^ 32 - unat (gcLastEraseTick s d b)) mod 2 ^ 32 < 2 ^ 32 - 1"
  then have "unat (gcActivityTick s - gcLastEraseTick s d b) < 2 ^ 32 - 1"
    unfolding age_modular .
  from cb_score_exact[OF assms this]
  show "unat (CalculateCostBenefitScore cfg s d b) =
           cost_benefit_formula (unat (invalidSliceCnt (block s d b)))
             (unat (USER_PAGES_PER_BLOCK cfg) - unat (invalidSliceCnt (block s d b)))
             ((unat (gcActivityTick s) + 2 ^ 32 - unat (gcLastEraseTick s d b)) mod 2 ^ 32)
             (unat (USER_PAGES_PER_BLOCK cfg))"
    unfolding age_modular .
next
  assume a: "(unat (gcActivityTick s) + 2 ^ 32 - unat (gcLastInvalidTick s d b)) mod 2 ^ 32 < 2 ^ 32 - 1 \<and>
          eraseCnt (block s d b) \<noteq> 0xFFFFFFFF"
  then have "unat (gcActivityTick s - gcLastInvalidTick s d b) < 2 ^ 32 - 1"
    unfolding age_modular by simp
  from cat_score_exact[OF assms conjunct2[OF a] this]
  show "unat (CalculateCatScore cfg s d b) =
           cat_formula (unat (invalidSliceCnt (block s d b)))
             (unat (USER_PAGES_PER_BLOCK cfg) - unat (invalidSliceCnt (block s d b)))
             ((unat (gcActivityTick s) + 2 ^ 32 - unat (gcLastInvalidTick s d b)) mod 2 ^ 32)
             (unat (eraseCnt (block s d b)))"
    unfolding age_modular .
qed

text \<open>
  The amended C4 on scenario 3 (Cost-Benefit score 606 at age 100) and scenario 4
  (CAT score 2 at age 10 and wear 10) of the specification.
\<close>

theorem score_formulas_witness:
  "unat (invalidSliceCnt (block cb_state 0 2)) \<le> unat (USER_PAGES_PER_BLOCK cfg4) \<and>
   unat (USER_PAGES_PER_BLOCK cfg4) < 2 ^ 32 - 1 \<and>
   (unat (gcActivityTick cb_state) + 2 ^ 32 - unat (gcLastEraseTick cb_state 0 2)) mod 2 ^ 32 = 100 \<and>
   unat (CalculateCostBenefitScore cfg4 cb_state 0 2) = cost_benefit_formula 3 1 100 4 \<and>
   cost_benefit_formula 3 1 100 4 = 606 \<and>
   (unat (gcActivityTick (cat_pair_state 1000 10)) + 2 ^ 32 -
      unat (gcLastInvalidTick (cat_pair_state 1000 10) 0 2)) mod 2 ^ 32 = 10 \<and>
   eraseCnt (block (cat_pair_state 1000 10) 0 2) \<noteq> 0xFFFFFFFF \<and>
   unat (CalculateCatScore cfg4 (cat_pair_state 1000 10) 0 2) = cat_formula 3 1 10 10 \<and>
   cat_formula 3 1 10 10 = 2"
proof -
  have a: "unat (invalidSliceCnt (block cb_state 0 2)) = 3" "unat (USER_PAGES_PER_BLOCK cfg4) = 4"
    "unat (gcActivityTick cb_state) = 100" "unat (gcLastEraseTick cb_state 0 2) = 0"
    by (simp_all add: cb_state_def sel4)
  have b: "unat (invalidSliceCnt (block (cat_pair_state 1000 10) 0 2)) = 3"
    "unat (gcActivityTick (cat_pair_state 1000 10)) = 10"
    "unat (gcLastInvalidTick (cat_pair_state 1000 10) 0 2) = 0"
    "eraseCnt (block (cat_pair_state 1000 10) 0 2) = 10"
    by (simp_all add: cat_pair_state_def boot_state_def)
  have h1: "unat (invalidSliceCnt (block cb_state 0 2)) \<le> unat (USER_PAGES_PER_BLOCK cfg4)"
    and h2: "unat (USER_PAGES_PER_BLOCK cfg4) < 2 ^ 32 - 1" by (simp_all add: a)
  have h3: "unat (invalidSliceCnt (block (cat_pair_state 1000 10) 0 2)) \<le> unat (USER_PAGES_PER_BLOCK cfg4)"
    by (simp add: a b)
  have f: "cost_benefit_formula 3 1 100 4 = 606" "cat_formula 3 1 10 10 = 2"
    by (simp_all add: cost_benefit_formula_def cat_formula_def Let_def del: One_nat_def)
  show ?thesis
    using score_formulas[OF h1 h2] score_formulas[OF h3 h2] h1 h2 f
    by (simp add: a b)
qed

text \<open>
  C5. On a well-formed index the Cost-Benefit \<^verbatim>\<open>GetFromGcVictimList\<close> terminates.
  When it returns block \<open>v\<close>, the scan order of the candidates splits as
  \<open>pre @ v # post\<close> with every candidate in \<open>pre\<close> scoring strictly less than \<open>v\<close>
  and every candidate in \<open>post\<close> scoring at most as much: \<open>v\<close> has the maximal
  score and is the first candidate of the descending scan that has it. It does
  return a block when some candidate's score is not 0, which is so for every die
  with a candidate as long as \<open>S \<le> P\<close> and the products \<open>I * (A+1) * P\<close> stay
  below \<open>2^32\<close>.
\<close>

theorem cb_selection_dominance:
  assumes wf: "index_wf cfg s d bl"
  shows "GetFromGcVictimList_cb cfg s d \<noteq> None \<and>
     (\<forall>v s'. GetFromGcVictimList_cb cfg s d = Some (Inr (v, s')) \<longrightarrow>
        (\<exists>pre post. scan_order cfg bl = pre @ v # post \<and>
           (\<forall>y \<in> set pre. CalculateCostBenefitScore cfg s d y < CalculateCostBenefitScore cfg s d v) \<and>
           (\<forall>y \<in> set post. CalculateCostBenefitScore cfg s d y \<le> CalculateCostBenefitScore cfg s d v))) \<and>
     ((\<exists>x \<in> set (scan_order cfg bl). CalculateCostBenefitScore cfg s d x \<noteq> 0) \<longrightarrow>
        (\<exists>v s'. GetFromGcVictimList_cb cfg s d = Some (Inr (v, s')))) \<and>
     (scan_order cfg bl \<noteq> [] \<and>
      unat (SLICES_PER_BLOCK cfg) \<le> unat (USER_PAGES_PER_BLOCK cfg) \<and>
      unat (USER_PAGES_PER_BLOCK cfg) < 2 ^ 32 - 1 \<and>
      (\<forall>x \<in> set (scan_order cfg bl).
         unat (invalidSliceCnt (block s d x)) * (unat (gcActivityTick s - gcLastEraseTick s d x) + 1)
           * unat (USER_PAGES_PER_BLOCK cfg) < 2 ^ 32) \<longrightarrow>
        (\<exists>v s'. GetFromGcVictimList_cb cfg s d = Some (Inr (v, s'))))"
proof -
  let ?score = "CalculateCostBenefitScore cfg s d"
  let ?get = "GetFromGcVictimList_cb cfg s d"
  have sp: "(?get = Some (Inl AssertionFailure) \<and> (\<forall>x \<in> set (scan_order cfg bl). ?score x = 0)) \<or>
         (\<exists>pre b post. scan_order cfg bl = pre @ b # post \<and> 0 < ?score b \<and>
            (\<forall>y \<in> set pre. ?score y < ?score b) \<and> (\<forall>y \<in> set post. ?score y \<le> ?score b) \<and>
            ?get = Some (Inr (b, DetachBlockFromGcList cfg s d b)))"
    unfolding GetFromGcVictimList_cb_def by (rule scored_spec[OF wf])
  have p1: "?get \<noteq> None" using sp by auto
  have p2: "\<forall>v s'. ?get = Some (Inr (v, s')) \<longrightarrow>
        (\<exists>pre post. scan_order cfg bl = pre @ v # post \<and>
           (\<forall>y \<in> set pre. ?score y < ?score v) \<and> (\<forall>y \<in> set post. ?score y \<le> ?score v))"
  proof (intro allI impI)
    fix v s' assume g: "?get = Some (Inr (v, s'))"
    from sp g obtain pre b post where b: "scan_order cfg bl = pre @ b # post"
      "\<forall>y \<in> set pre. ?score y < ?score b" "\<forall>y \<in> set post. ?score y \<le> ?score b"
      "?get = Some (Inr (b, DetachBlockFromGcList cfg s d b))" by auto
    from b(4) g have "b = v" by simp
    with b(1,2,3) show "\<exists>pre post. scan_order cfg bl = pre @ v # post \<and>
           (\<forall>y \<in> set pre. ?score y < ?score v) \<and> (\<forall>y \<in> set post. ?score y \<le> ?score v)"
      by blast
  qed
  have p3: "(\<exists>x \<in> set (scan_order cfg bl). ?score x \<noteq> 0) \<longrightarrow> (\<exists>v s'. ?get = Some (Inr (v, s')))"
    using sp by auto
  have p4: "scan_order cfg bl \<noteq> [] \<and>
      unat (SLICES_PER_BLOCK cfg) \<le> unat (USER_PAGES_PER_BLOCK cfg) \<and>
      unat (USER_PAGES_PER_BLOCK cfg) < 2 ^ 32 - 1 \<and>
      (\<forall>x \<in> set (scan_order cfg bl).
         unat (invalidSliceCnt (block s d x)) * (unat (gcActivityTick s - gcLastEraseTick s d x) + 1)
           * unat (USER_PAGES_PER_BLOCK cfg) < 2 ^ 32) \<longrightarrow>
        (\<exists>v s'. ?get = Some (Inr (v, s')))"
  proof
    assume a: "scan_order cfg bl \<noteq> [] \<and>
      unat (SLICES_PER_BLOCK cfg) \<le> unat (USER_PAGES_PER_BLOCK cfg) \<and>
      unat (USER_PAGES_PER_BLOCK cfg) < 2 ^ 32 - 1 \<and>
      (\<forall>x \<in> set (scan_order cfg bl).
         unat (invalidSliceCnt (block s d x)) * (unat (gcActivityTick s - gcLastEraseTick s d x) + 1)
           * unat (USER_PAGES_PER_BLOCK cfg) < 2 ^ 32)"
    then obtain x where x: "x \<in> set (scan_order cfg bl)" by (cases "scan_order cfg bl") auto
    then obtain k where k: "0 < k" "k \<le> SLICES_PER_BLOCK cfg" "x \<in> set (bl k)"
      unfolding set_scan_order by blast
    have c: "invalidSliceCnt (block s d x) = k"
      using index_wf_bucket[OF wf k(2)] k(3) by (simp add: bucket_ok_def)
    have i0: "0 < unat (invalidSliceCnt (block s d x))" using k(1) c by (simp add: word_less_nat_alt)
    have "unat k \<le> unat (SLICES_PER_BLOCK cfg)" using k(2) by (simp add: word_le_nat_alt)
    then have ip: "unat (invalidSliceCnt (block s d x)) \<le> unat (USER_PAGES_PER_BLOCK cfg)"
      using a c by simp
    have pp: "unat (USER_PAGES_PER_BLOCK cfg) < 2 ^ 32 - 1" using a by simp
    have sm: "unat (invalidSliceCnt (block s d x)) * (unat (gcActivityTick s - gcLastEraseTick s d x) + 1)
           * unat (USER_PAGES_PER_BLOCK cfg) < 2 ^ 32" using a x by blast
    have "0 < unat (?score x)" using ip pp i0 sm by (rule cb_score_pos)
    then have "?score x \<noteq> 0" by auto
    with x p3 show "\<exists>v s'. ?get = Some (Inr (v, s'))" by blast
  qed
  show ?thesis using p1 p2 p3 p4 by blast
qed

text \<open>
  C5 on scenario 3 of the specification: the scan meets block 1 (score 16) before
  block 2 (score 606) and returns block 2.
\<close>

theorem cb_selection_dominance_witness:
  "index_wf cfg4 cb_state 0 cb_bl \<and> scan_order cfg4 cb_bl = [1, 2] \<and>
   GetFromGcVictimList_cb cfg4 cb_state 0 = Some (Inr (2, DetachBlockFromGcList cfg4 cb_state 0 2)) \<and>
   CalculateCostBenefitScore cfg4 cb_state 0 1 = 16 \<and>
   CalculateCostBenefitScore cfg4 cb_state 0 2 = 606 \<and>
   (\<exists>pre post. scan_order cfg4 cb_bl = pre @ 2 # post \<and>
      (\<forall>y \<in> set pre. CalculateCostBenefitScore cfg4 cb_state 0 y < CalculateCostBenefitScore cfg4 cb_state 0 2) \<and>
      (\<forall>y \<in> set post. CalculateCostBenefitScore cfg4 cb_state 0 y \<le> CalculateCostBenefitScore cfg4 cb_state 0 2))"
proof -
  have h: "index_wf cfg4 cb_state 0 cb_bl" by code_simp
  have o: "scan_order cfg4 cb_bl = [1, 2]" by code_simp
  have s: "CalculateCostBenefitScore cfg4 cb_state 0 1 = 16" "CalculateCostBenefitScore cfg4 cb_state 0 2 = 606"
    by (simp_all add: CalculateCostBenefitScore_def cb_state_def sel4 boot_state_def Let_def)
  show ?thesis using cb_selection_dominance[OF h] cb_state_get h o s by blast
qed

text \<open>
  C6, amended. Two candidates \<open>lo\<close> and \<open>hi\<close> are the only ones of the die, agree
  on invalid count and age, and \<open>lo\<close> has the lower wear. If their CAT scores
  differ (and the score does not overflow: \<open>I \<le> P < 2^32 - 1\<close>,
  \<open>(I+1) * (A+1) < 2^32\<close>, wear below \<open>2^32 - 1\<close>), the CAT
  \<^verbatim>\<open>GetFromGcVictimList\<close> returns \<open>lo\<close>.
\<close>

theorem cat_prefers_lower_wear:
  assumes wf: "index_wf cfg s d bl"
    and two: "scan_order cfg bl = [lo, hi] \<or> scan_order cfg bl = [hi, lo]"
    and sameI: "invalidSliceCnt (block s d lo) = invalidSliceCnt (block s d hi)"
    and sameA: "gcLastInvalidTick s d lo = gcLastInvalidTick s d hi"
    and wear: "eraseCnt (block s d lo) < eraseCnt (block s d hi)"
    and ip: "unat (invalidSliceCnt (block s d lo)) \<le> unat (USER_PAGES_PER_BLOCK cfg)"
    and pp: "unat (USER_PAGES_PER_BLOCK cfg) < 2 ^ 32 - 1"
    and hiw: "eraseCnt (block s d hi) \<noteq> 0xFFFFFFFF"
    and small: "(unat (invalidSliceCnt (block s d lo)) + 1) *
                (unat (gcActivityTick s - gcLastInvalidTick s d lo) + 1) < 2 ^ 32"
    and differ: "CalculateCatScore cfg s d lo \<noteq> CalculateCatScore cfg s d hi"
  shows "GetFromGcVictimList_cat cfg s d = Some (Inr (lo, DetachBlockFromGcList cfg s d lo))"
proof -
  let ?score = "CalculateCatScore cfg s d"
  have wlt: "unat (eraseCnt (block s d lo)) < unat (eraseCnt (block s d hi))"
    using wear by (simp add: word_less_nat_alt)
  have "unat (eraseCnt (block s d hi)) < 2 ^ 32"
    using unsigned_less[of "eraseCnt (block s d hi)", where 'a=nat] by simp
  with wlt have "unat (eraseCnt (block s d lo)) \<noteq> unat (0xFFFFFFFF :: u32)" by simp
  then have low: "eraseCnt (block s d lo) \<noteq> 0xFFFFFFFF" by auto
  have ne: "lo \<noteq> hi" using wear by auto
  have slo: "unat (?score lo) =
         ((unat (invalidSliceCnt (block s d lo)) + 1) *
          (unat (gcActivityTick s - gcLastInvalidTick s d lo) + 1)) div
         ((unat (USER_PAGES_PER_BLOCK cfg) - unat (invalidSliceCnt (block s d lo)) + 1) *
          (unat (eraseCnt (block s d lo)) + 1))"
    using ip pp low small by (rule cat_score_small)
  have shi: "unat (?score hi) =
         ((unat (invalidSliceCnt (block s d lo)) + 1) *
          (unat (gcActivityTick s - gcLastInvalidTick s d lo) + 1)) div
         ((unat (USER_PAGES_PER_BLOCK cfg) - unat (invalidSliceCnt (block s d lo)) + 1) *
          (unat (eraseCnt (block s d hi)) + 1))"
    using cat_score_small[of s d hi cfg] ip pp hiw small unfolding sameI sameA by simp
  have "unat (?score hi) \<le> unat (?score lo)"
    unfolding slo shi by (rule div_wear_mono) (use wlt in simp)
  then have "?score hi \<le> ?score lo" by (simp add: word_le_nat_alt)
  with differ have lt: "?score hi < ?score lo" by simp
  have mlo: "lo \<in> set (scan_order cfg bl)" using two by auto
  have sub: "set (scan_order cfg bl) = {lo, hi}" using two by auto
  have sp: "(GetFromGcVictimList_cat cfg s d = Some (Inl AssertionFailure) \<and>
            (\<forall>x \<in> set (scan_order cfg bl). ?score x = 0)) \<or>
         (\<exists>pre b post. scan_order cfg bl = pre @ b # post \<and> 0 < ?score b \<and>
            (\<forall>y \<in> set pre. ?score y < ?score b) \<and> (\<forall>y \<in> set post. ?score y \<le> ?score b) \<and>
            GetFromGcVictimList_cat cfg s d = Some (Inr (b, DetachBlockFromGcList cfg s d b)))"
    unfolding GetFromGcVictimList_cat_def by (rule scored_spec[OF wf])
  then show ?thesis
  proof
    assume "GetFromGcVictimList_cat cfg s d = Some (Inl AssertionFailure) \<and>
            (\<forall>x \<in> set (scan_order cfg bl). ?score x = 0)"
    with mlo have "?score lo = 0" by blast
    with lt show ?thesis by simp
  next
    assume "\<exists>pre b post. scan_order cfg bl = pre @ b # post \<and> 0 < ?score b \<and>
            (\<forall>y \<in> set pre. ?score y < ?score b) \<and> (\<forall>y \<in> set post. ?score y \<le> ?score b) \<and>
            GetFromGcVictimList_cat cfg s d = Some (Inr (b, DetachBlockFromGcList cfg s d b))"
    then obtain pre b post where b: "scan_order cfg bl = pre @ b # post"
      "\<forall>y \<in> set pre. ?score y < ?score b" "\<forall>y \<in> set post. ?score y \<le> ?score b"
      "GetFromGcVictimList_cat cfg s d = Some (Inr (b, DetachBlockFromGcList cfg s d b))" by blast
    have all: "\<forall>y \<in> set (scan_order cfg bl). ?score y \<le> ?score b"
      unfolding b(1) using b(2,3) by auto
    have "b \<in> set (scan_order cfg bl)" unfolding b(1) by simp
    then have "b = lo \<or> b = hi" unfolding sub by simp
    moreover have "b \<noteq> hi"
    proof
      assume "b = hi"
      with all mlo have "?score lo \<le> ?score hi" by blast
      with lt show False by simp
    qed
    ultimately have "b = lo" by simp
    with b(4) show ?thesis by simp
  qed
qed

text \<open>
  C6, as stated, fails: blocks 1 and 2 are the only candidates, agree on invalid
  count, valid count and age, and have wear 12 and 11. Both CAT scores are
  \<open>44 div 26 = 44 div 24 = 1\<close>, the first block of the scan keeps the tie, and
  the selection returns block 1, the one with the higher wear.
\<close>

theorem cat_tie_counterexample:
  "index_wf cfg4 (cat_pair_state 12 11) 0 cat_pair_bl \<and>
   scan_order cfg4 cat_pair_bl = [1, 2] \<and>
   invalidSliceCnt (block (cat_pair_state 12 11) 0 1) = invalidSliceCnt (block (cat_pair_state 12 11) 0 2) \<and>
   gcLastInvalidTick (cat_pair_state 12 11) 0 1 = gcLastInvalidTick (cat_pair_state 12 11) 0 2 \<and>
   eraseCnt (block (cat_pair_state 12 11) 0 1) = 12 \<and>
   eraseCnt (block (cat_pair_state 12 11) 0 2) = 11 \<and>
   CalculateCatScore cfg4 (cat_pair_state 12 11) 0 1 = 1 \<and>
   CalculateCatScore cfg4 (cat_pair_state 12 11) 0 2 = 1 \<and>
   victim_of (GetFromGcVictimList_cat cfg4 (cat_pair_state 12 11) 0) = Some 1"
proof -
  have h: "index_wf cfg4 (cat_pair_state 12 11) 0 cat_pair_bl" by code_simp
  have o: "scan_order cfg4 cat_pair_bl = [1, 2]" by code_simp
  have s: "CalculateCatScore cfg4 (cat_pair_state 12 11) 0 1 = 1"
          "CalculateCatScore cfg4 (cat_pair_state 12 11) 0 2 = 1"
    by (simp_all add: CalculateCatScore_def cat_pair_state_def sel4 boot_state_def Let_def)
  have e: "invalidSliceCnt (block (cat_pair_state 12 11) 0 1) = invalidSliceCnt (block (cat_pair_state 12 11) 0 2)"
    "gcLastInvalidTick (cat_pair_state 12 11) 0 1 = gcLastInvalidTick (cat_pair_state 12 11) 0 2"
    "eraseCnt (block (cat_pair_state 12 11) 0 1) = 12" "eraseCnt (block (cat_pair_state 12 11) 0 2) = 11"
    by (simp_all add: cat_pair_state_def boot_state_def)
  show ?thesis using h o s e by (simp add: cat_tie_get victim_of_def)
qed

text \<open>
  The amended C6 on scenario 4 of the specification: wear 1000 against wear 10,
  scores 0 and 2, block 2 is returned.
\<close>

theorem cat_prefers_lower_wear_witness:
  "index_wf cfg4 (cat_pair_state 1000 10) 0 cat_pair_bl \<and>
   scan_order cfg4 cat_pair_bl = [1, 2] \<and>
   eraseCnt (block (cat_pair_state 1000 10) 0 2) < eraseCnt (block (cat_pair_state 1000 10) 0 1) \<and>
   CalculateCatScore cfg4 (cat_pair_state 1000 10) 0 2 \<noteq> CalculateCatScore cfg4 (cat_pair_state 1000 10) 0 1 \<and>
   GetFromGcVictimList_cat cfg4 (cat_pair_state 1000 10) 0 =
     Some (Inr (2, DetachBlockFromGcList cfg4 (cat_pair_state 1000 10) 0 2))"
proof -
  let ?s = "cat_pair_state 1000 10"
  have h: "index_wf cfg4 ?s 0 cat_pair_bl" by code_simp
  have o: "scan_order cfg4 cat_pair_bl = [2, 1] \<or> scan_order cfg4 cat_pair_bl = [1, 2]" by code_simp
  have o': "scan_order cfg4 cat_pair_bl = [1, 2]" by code_simp
  have e: "invalidSliceCnt (block ?s 0 2) = invalidSliceCnt (block ?s 0 1)"
    "gcLastInvalidTick ?s 0 2 = gcLastInvalidTick ?s 0 1"
    "eraseCnt (block ?s 0 2) < eraseCnt (block ?s 0 1)"
    "eraseCnt (block ?s 0 1) \<noteq> 0xFFFFFFFF"
    by (simp_all add: cat_pair_state_def boot_state_def)
  have ip: "unat (invalidSliceCnt (block ?s 0 2)) \<le> unat (USER_PAGES_PER_BLOCK cfg4)"
    and pp: "unat (USER_PAGES_PER_BLOCK cfg4) < 2 ^ 32 - 1"
    and sm: "(unat (invalidSliceCnt (block ?s 0 2)) + 1) *
             (unat (gcActivityTick ?s - gcLastInvalidTick ?s 0 2) + 1) < 2 ^ 32"
    by (simp_all add: cat_pair_state_def boot_state_def sel4)
  have s: "CalculateCatScore cfg4 ?s 0 2 \<noteq> CalculateCatScore cfg4 ?s 0 1"
    by (simp add: CalculateCatScore_def cat_pair_state_def sel4 boot_state_def Let_def)
  show ?thesis
    using cat_prefers_lower_wear[OF h o e(1,2,3) ip pp e(4) sm s] h o' e(3) s by simp
qed



text \<open>
  C9, amended. The trace of one run of \<^verbatim>\<open>GarbageCollection\<close> (any of the three
  files) that passes the selection is a sequence of copies followed by one
  \<^verbatim>\<open>EraseBlock\<close>. Within a copy the READ request is enqueued before the WRITE
  request, and the two mapping stores come between the allocation of the
  destination and the hand-over of the WRITE request, immediately before it; the
  erase comes after every WRITE.
\<close>

theorem gc_trace_order:
  "GarbageCollection_greedy cfg s d = Inr s' \<or>
   GarbageCollection_cb cfg s d = Some (Inr s') \<or>
   GarbageCollection_cat cfg s d = Some (Inr s') \<longrightarrow>
     (\<exists>victim chunks.
        events s' = events s @ concat chunks @ [Ev_EraseBlock d victim] \<and>
        (\<forall>c \<in> set chunks. \<exists>v L t1 e1 t2 e2 dst. c = copy_chunk d victim v L t1 e1 t2 e2 dst))"
  using GarbageCollection_trace by blast

text \<open>
  C9, as stated, fails in its last part: in the run of scenario 2 the two stores
  into the mapping tables are events 8 and 9 of the copy and the hand-over of the
  WRITE request is event 10, the last one before the erase. The maps are updated
  before the WRITE is enqueued, not after.
\<close>

theorem map_update_before_write_counterexample:
  "trace_of (GarbageCollection_greedy cfg4 gc_state 0) =
     Some (copy_chunk 0 1 6 7 0 1 4 5 1007 @ [Ev_EraseBlock 0 1]) \<and>
   copy_chunk 0 1 6 7 0 1 4 5 1007 ! 8 = Ev_store_logicalSlice 7 1007 \<and>
   copy_chunk 0 1 6 7 0 1 4 5 1007 ! 9 = Ev_store_virtualSlice 1007 7 \<and>
   copy_chunk 0 1 6 7 0 1 4 5 1007 ! 10 =
     Ev_SelectLowLevelReqQ 4 (gc_request REQ_CODE_WRITE 7 5 1007) \<and>
   length (copy_chunk 0 1 6 7 0 1 4 5 1007) = 11"
  using gc_greedy_run by (simp add: copy_chunk_def)

text \<open>
  The amended C9 on scenario 2.
\<close>

theorem gc_trace_order_witness:
  "(\<exists>s'. GarbageCollection_greedy cfg4 gc_state 0 = Inr s' \<and>
      (\<exists>victim chunks.
        events s' = events gc_state @ concat chunks @ [Ev_EraseBlock 0 victim] \<and>
        (\<forall>c \<in> set chunks. \<exists>v L t1 e1 t2 e2 dst. c = copy_chunk 0 victim v L t1 e1 t2 e2 dst))) \<and>
   trace_of (GarbageCollection_greedy cfg4 gc_state 0) =
     Some (concat [copy_chunk 0 1 6 7 0 1 4 5 1007] @ [Ev_EraseBlock 0 1])"
proof -
  obtain s' where s': "GarbageCollection_greedy cfg4 gc_state 0 = Inr s'"
    by (simp add: GarbageCollection_greedy_def gc_greedy_sel)
  from gc_trace_order[of cfg4 gc_state 0 s'] s' gc_greedy_run show ?thesis by simp
qed

end
